theory Spec2Isabelle
  imports Main "HOL-Library.Sublist" "HOL-Library.Char_ord" "HOL-Library.List_Lexorder"
begin

section \<open>Strings as the source uses them\<close>

text \<open>
  Python strings are modelled as \<open>string\<close> (lists of \<open>char\<close>). The source only ever
  splits, joins and replaces on single ASCII characters, for which the byte view and the
  code point view agree.
\<close>

definition newline :: char where
  "newline = CHR 0x0A"

definition dquote :: char where
  "dquote = CHR 0x22"

text \<open>\<^verbatim>\<open>s.split(sep)\<close> for a one-character separator: never empty, one more element than
  there are separators.\<close>

fun split_on :: "char \<Rightarrow> string \<Rightarrow> string list" where
  "split_on c [] = [[]]"
| "split_on c (x # xs) =
     (if x = c then [] # split_on c xs
      else (x # hd (split_on c xs)) # tl (split_on c xs))"

text \<open>\<^verbatim>\<open>sep.join(xs)\<close>.\<close>

fun join :: "string \<Rightarrow> string list \<Rightarrow> string" where
  "join sep [] = []"
| "join sep [x] = x"
| "join sep (x # y # ys) = x @ sep @ join sep (y # ys)"

text \<open>\<^verbatim>\<open>s.replace(old, new)\<close> where \<open>old\<close> is a single character.\<close>

definition replace_char :: "char \<Rightarrow> string \<Rightarrow> string \<Rightarrow> string" where
  "replace_char c r s = concat (map (\<lambda>x. if x = c then r else [x]) s)"

text \<open>
  \<^verbatim>\<open>xml.sax.saxutils.escape(data)\<close> with no extra entities, as the source calls it:
  \<^verbatim>\<open>data.replace("&", "&amp;").replace(">", "&gt;").replace("<", "&lt;")\<close>.
\<close>

definition escape :: "string \<Rightarrow> string" where
  "escape data =
     replace_char (CHR ''<'') ''&lt;''
       (replace_char (CHR ''>'') ''&gt;''
         (replace_char (CHR ''&'') ''&amp;'' data))"

text \<open>\<^verbatim>\<open>str(n)\<close> for an integer: decimal digits, a minus sign for a negative number.\<close>

definition digit_char :: "nat \<Rightarrow> char" where
  "digit_char d = char_of (of_char (CHR ''0'') + d)"

function str_nat :: "nat \<Rightarrow> string" where
  "str_nat n = (if n < 10 then [digit_char n] else str_nat (n div 10) @ [digit_char (n mod 10)])"
  by pat_completeness auto
termination
  by (relation "measure id") auto

declare str_nat.simps [simp del]

definition str_int :: "int \<Rightarrow> string" where
  "str_int i = (if i < 0 then CHR ''-'' # str_nat (nat (- i)) else str_nat (nat i))"

text \<open>\<^verbatim>\<open>s.lower()\<close> on ASCII letters, \<^verbatim>\<open>s.strip()\<close> on ASCII white space.\<close>

definition lower_char :: "char \<Rightarrow> char" where
  "lower_char c =
     (if CHR ''A'' \<le> c \<and> c \<le> CHR ''Z'' then char_of (of_char c + (32::nat)) else c)"

definition lower :: "string \<Rightarrow> string" where
  "lower s = map lower_char s"

definition is_space :: "char \<Rightarrow> bool" where
  "is_space c \<longleftrightarrow>
     c = CHR '' '' \<or> (CHR 0x09 \<le> c \<and> c \<le> CHR 0x0D) \<or> (CHR 0x1C \<le> c \<and> c \<le> CHR 0x1F)"

definition strip :: "string \<Rightarrow> string" where
  "strip s = rev (dropWhile is_space (rev (dropWhile is_space s)))"

section \<open>Source acquirer: \<^verbatim>\<open>is_github_url\<close>\<close>

text \<open>The regular expression \<^verbatim>\<open>^https?://(www\.)?github\.com/\<close>, matched at the start.\<close>

definition is_github_url :: "string \<Rightarrow> bool" where
  "is_github_url v \<longleftrightarrow>
     prefix ''http://github.com/'' v \<or> prefix ''http://www.github.com/'' v \<or>
     prefix ''https://github.com/'' v \<or> prefix ''https://www.github.com/'' v"

section \<open>File selector: \<^verbatim>\<open>os.walk\<close>, \<^verbatim>\<open>build_tree\<close>, \<^verbatim>\<open>collect_files\<close>\<close>

text \<open>
  A directory as \<^verbatim>\<open>os.walk\<close> sees it: its base name, its non-directory entries with the
  size \<^verbatim>\<open>stat\<close> reports for each (\<open>None\<close> when \<^verbatim>\<open>stat\<close> raises \<^verbatim>\<open>OSError\<close>), and the
  directories it descends into, in the order the operating system lists them. Symbolic
  links to directories are never descended into and give no line and no file, so they are
  left out.
\<close>

datatype dir = Dir (dname: string) (dfiles: "(string \<times> nat option) list") (dsubdirs: "dir list")

text \<open>
  One element per directory visited, top down: the directory's path relative to the root,
  as a list of segments, and the directory itself. The caller's assignment
  \<^verbatim>\<open>dirnames[:] = [d for d in dirnames if d not in exclude_dirs]\<close> is the pruning: the walk
  descends only into the directories left in the list.
\<close>

lemma size_filter_dirs [termination_simp]:
  "size_list size (filter P ds) \<le> size_list size (ds :: dir list)"
  by (induction ds) auto

fun walk :: "string set \<Rightarrow> string list \<Rightarrow> dir \<Rightarrow> (string list \<times> dir) list"
  and walk_subdirs :: "string set \<Rightarrow> string list \<Rightarrow> dir list \<Rightarrow> (string list \<times> dir) list" where
  "walk exclude_dirs rel (Dir n fs ds) =
     (rel, Dir n fs ds) # walk_subdirs exclude_dirs rel (filter (\<lambda>d. dname d \<notin> exclude_dirs) ds)"
| "walk_subdirs exclude_dirs rel [] = []"
| "walk_subdirs exclude_dirs rel (d # ds) =
     walk exclude_dirs (rel @ [dname d]) d @ walk_subdirs exclude_dirs rel ds"

definition filenames :: "dir \<Rightarrow> string list" where
  "filenames d = map fst (dfiles d)"

text \<open>\<^verbatim>\<open>path.stat().st_size\<close> of an entry of the directory; \<open>None\<close> is \<^verbatim>\<open>OSError\<close>.\<close>

definition stat_size :: "dir \<Rightarrow> string \<Rightarrow> nat option" where
  "stat_size d filename = (case map_of (dfiles d) filename of Some st \<Rightarrow> st | None \<Rightarrow> None)"

text \<open>\<^verbatim>\<open>str.rfind\<close> of one character and \<^verbatim>\<open>Path(name).suffix\<close> of a bare file name: the
  name from its last dot on, when that dot is neither the first nor the last character.\<close>

fun rfind :: "char \<Rightarrow> string \<Rightarrow> nat option" where
  "rfind c [] = None"
| "rfind c (x # xs) =
     (case rfind c xs of Some i \<Rightarrow> Some (Suc i) | None \<Rightarrow> if x = c then Some 0 else None)"

definition suffix_of :: "string \<Rightarrow> string" where
  "suffix_of name =
     (case rfind (CHR ''.'') name of
        None \<Rightarrow> []
      | Some i \<Rightarrow> if 0 < i \<and> i < length name - 1 then drop i name else [])"

definition indent :: "nat \<Rightarrow> string" where
  "indent indent_level = concat (replicate indent_level ''  '')"

text \<open>
  \<^verbatim>\<open>build_tree\<close> appends one line per directory visited and one line per file of it whose
  extension is accepted. The lines are kept as items first, so that a statement can speak
  of the files the tree lists; the text is the items rendered and joined.
\<close>

datatype tree_item = DirLine "string list" | FileLine "string list" string

definition tree_block :: "string set \<Rightarrow> string list \<times> dir \<Rightarrow> tree_item list" where
  "tree_block include_exts e =
     (case e of (rel, d) \<Rightarrow>
        DirLine rel #
        map (FileLine rel)
          (filter (\<lambda>filename. lower (suffix_of filename) \<in> include_exts) (sort (filenames d))))"

definition tree_items :: "dir \<Rightarrow> string set \<Rightarrow> string set \<Rightarrow> tree_item list" where
  "tree_items root include_exts exclude_dirs =
     concat (map (tree_block include_exts) (walk exclude_dirs [] root))"

fun render_item :: "string \<Rightarrow> tree_item \<Rightarrow> string" where
  "render_item root_name (DirLine rel) =
     (if rel = [] then root_name @ ''/'' else indent (length rel) @ last rel @ ''/'')"
| "render_item root_name (FileLine rel filename) = indent (length rel) @ ''  '' @ filename"

definition build_tree :: "dir \<Rightarrow> string set \<Rightarrow> string set \<Rightarrow> string" where
  "build_tree root include_exts exclude_dirs =
     join [newline] (map (render_item (dname root)) (tree_items root include_exts exclude_dirs))"

text \<open>
  \<^verbatim>\<open>collect_files\<close>: the inner loop over the sorted file names of one directory. A selected
  file is kept as its path relative to the root: directory segments and file name. The
  test \<^verbatim>\<open>st_size / 1024 > max_size_kb\<close> is \<open>st_size > 1024 * max_size_kb\<close> (the division by a
  power of two is exact for every size below \<open>2 ^ 53\<close> bytes).
\<close>

type_synonym path = "string list \<times> string"

fun collect_dir :: "string set \<Rightarrow> int \<Rightarrow> string list \<Rightarrow> dir \<Rightarrow> string list \<Rightarrow> path list" where
  "collect_dir include_exts max_size_kb rel d [] = []"
| "collect_dir include_exts max_size_kb rel d (filename # rest) =
     (if lower (suffix_of filename) \<notin> include_exts
      then collect_dir include_exts max_size_kb rel d rest
      else (case stat_size d filename of
              None \<Rightarrow> collect_dir include_exts max_size_kb rel d rest
            | Some st_size \<Rightarrow>
                if int st_size > 1024 * max_size_kb
                then collect_dir include_exts max_size_kb rel d rest
                else (rel, filename) # collect_dir include_exts max_size_kb rel d rest))"

definition collect_files :: "dir \<Rightarrow> string set \<Rightarrow> string set \<Rightarrow> int \<Rightarrow> path list" where
  "collect_files root include_exts exclude_dirs max_size_kb =
     concat (map (\<lambda>(rel, d). collect_dir include_exts max_size_kb rel d (sort (filenames d)))
               (walk exclude_dirs [] root))"

section \<open>Markup renderer: \<^verbatim>\<open>_token_color\<close>, \<^verbatim>\<open>build_code_lines\<close>, \<^verbatim>\<open>add_line_numbers\<close>\<close>

text \<open>
  The tokenizer library is a parameter of the model. A token type is its path below the root
  token type (the library represents it as a tuple, and \<^verbatim>\<open>parent\<close> drops the last
  component; the root has no parent). A style maps some token types to a style definition,
  of which only the colour is read; a missing key is the library's \<^verbatim>\<open>KeyError\<close>.
  \<open>lex\<close> stands for lexer selection by file name followed by tokenization, falling back to
  the plain text lexer as the source does.
\<close>

type_synonym token_type = "string list"

record pygments =
  lex :: "string \<Rightarrow> string \<Rightarrow> (token_type \<times> string) list"
  style_for_token :: "token_type \<Rightarrow> string option option"

definition parent :: "token_type \<Rightarrow> token_type option" where
  "parent t = (if t = [] then None else Some (butlast t))"

text \<open>The \<^verbatim>\<open>while parent is not None\<close> loop, walking up from a given ancestor.\<close>

function token_color_up :: "pygments \<Rightarrow> token_type option \<Rightarrow> string option" where
  "token_color_up style None = None"
| "token_color_up style (Some p) =
     (case style_for_token style p of
        Some style_def \<Rightarrow> style_def
      | None \<Rightarrow> token_color_up style (parent p))"
  by pat_completeness auto
termination
  by (relation "measure (\<lambda>(s, p). case p of None \<Rightarrow> 0 | Some t \<Rightarrow> Suc (length t))")
    (auto simp: parent_def)

definition token_color :: "pygments \<Rightarrow> token_type \<Rightarrow> string option" where
  "token_color style token_type =
     (case style_for_token style token_type of
        Some style_def \<Rightarrow> style_def
      | None \<Rightarrow> token_color_up style (parent token_type))"

text \<open>\<^verbatim>\<open>if color:\<close> is false for \<^verbatim>\<open>None\<close> and for the empty string.\<close>

definition font_span :: "string option \<Rightarrow> string \<Rightarrow> string" where
  "font_span color escaped =
     (case color of
        None \<Rightarrow> escaped
      | Some col \<Rightarrow>
          if col = [] then escaped
          else ''<font color='' @ [dquote] @ ''#'' @ col @ [dquote] @ ''>'' @ escaped @ ''</font>'')"

text \<open>The inner loop over the parts of one token value; \<open>lines\<close> is never empty.\<close>

fun add_parts :: "string option \<Rightarrow> string list \<Rightarrow> string list \<Rightarrow> string list" where
  "add_parts color lines [] = lines"
| "add_parts color lines (part # rest) =
     (let lines1 = (if part \<noteq> [] then butlast lines @ [last lines @ font_span color (escape part)]
                    else lines);
          lines2 = (if rest \<noteq> [] then lines1 @ [[]] else lines1)
      in add_parts color lines2 rest)"

fun add_tokens :: "pygments \<Rightarrow> string list \<Rightarrow> (token_type \<times> string) list \<Rightarrow> string list" where
  "add_tokens style lines [] = lines"
| "add_tokens style lines ((token_type, val) # toks) =
     (if val = [] then add_tokens style lines toks
      else add_tokens style
             (add_parts (token_color style token_type) lines (split_on newline val)) toks)"

text \<open>The first argument is the imported tokenizer library, \<open>None\<close> when the import fails.\<close>

definition build_code_lines :: "pygments option \<Rightarrow> string \<Rightarrow> string \<Rightarrow> bool \<Rightarrow> string list" where
  "build_code_lines pyg text filename highlight =
     (if \<not> highlight then map escape (split_on newline text)
      else (case pyg of
              None \<Rightarrow> map escape (split_on newline text)
            | Some p \<Rightarrow> add_tokens p [[]] (lex p filename text)))"

text \<open>\<^verbatim>\<open>f"{idx:>{width}}  {line}"\<close>: the number right-aligned in \<open>width\<close> columns.\<close>

definition rjust :: "nat \<Rightarrow> string \<Rightarrow> string" where
  "rjust width s = replicate (width - length s) (CHR '' '') @ s"

definition add_line_numbers :: "string list \<Rightarrow> string list" where
  "add_line_numbers lines =
     (let width = length (str_nat (length lines))
      in map (\<lambda>(idx, line). rjust width (str_nat idx) @ ''  '' @ line)
           (zip [1 ..< Suc (length lines)] lines))"

section \<open>Document assembler: \<^verbatim>\<open>TOCDocTemplate\<close> and \<^verbatim>\<open>generate_pdf\<close>\<close>

text \<open>
  The flowables the program constructs. A paragraph carries its text and the name of its
  style; both kinds of preformatted block are always built with the style \<^verbatim>\<open>CodeBlock\<close>;
  a spacer, a page break and the table of contents have no \<^verbatim>\<open>style\<close> attribute.
\<close>

datatype flowable =
    Paragraph string string
  | Preformatted string
  | XPreformatted string
  | Spacer nat nat
  | PageBreak
  | TableOfContents

fun flowable_style :: "flowable \<Rightarrow> string option" where
  "flowable_style (Paragraph text style_name) = Some style_name"
| "flowable_style (Preformatted text) = Some ''CodeBlock''"
| "flowable_style (XPreformatted text) = Some ''CodeBlock''"
| "flowable_style (Spacer w h) = None"
| "flowable_style PageBreak = None"
| "flowable_style TableOfContents = None"

text \<open>\<^verbatim>\<open>getPlainText\<close>, taken as the text the flowable was built from. The library gives the text
  with its markup parsed, which is the same text whenever it holds no markup character.\<close>

fun getPlainText :: "flowable \<Rightarrow> string" where
  "getPlainText (Paragraph text style_name) = text"
| "getPlainText (Preformatted text) = text"
| "getPlainText (XPreformatted text) = text"
| "getPlainText (Spacer w h) = []"
| "getPlainText PageBreak = []"
| "getPlainText TableOfContents = []"

definition level_map :: "string \<Rightarrow> int option" where
  "level_map style_name =
     (if style_name = ''Heading1'' then Some 0
      else if style_name = ''Heading2'' then Some 1
      else if style_name = ''Heading3'' then Some 2
      else None)"

text \<open>
  The state of the document template: the two counters of \<^verbatim>\<open>__init__\<close>, and what the canvas
  and the table of contents have been told so far, oldest first: bookmarked keys, outline
  entries (text, key, level) and table-of-contents notifications (level, text, page).
\<close>

record doc_state =
  heading_count :: nat
  last_outline_level :: int
  bookmarks :: "string list"
  outline :: "(string \<times> string \<times> int) list"
  toc_entries :: "(int \<times> string \<times> nat) list"

definition init_doc :: doc_state where
  "init_doc = \<lparr>heading_count = 0, last_outline_level = - 1, bookmarks = [], outline = [],
               toc_entries = []\<rparr>"

text \<open>\<open>page\<close> is \<^verbatim>\<open>self.page\<close>, the page the layout engine is on when it calls the hook.\<close>

definition afterFlowable :: "doc_state \<Rightarrow> nat \<Rightarrow> flowable \<Rightarrow> doc_state" where
  "afterFlowable self page flowable =
     (case flowable_style flowable of
        None \<Rightarrow> self
      | Some style_name \<Rightarrow>
          (case level_map style_name of
             None \<Rightarrow> self
           | Some level0 \<Rightarrow>
               let text = getPlainText flowable;
                   count = heading_count self + 1;
                   level = (if level0 > last_outline_level self + 1
                            then last_outline_level self + 1 else level0);
                   bookmark_key = ''h'' @ str_int level @ ''_'' @ str_nat count
               in self\<lparr>heading_count := count,
                       bookmarks := bookmarks self @ [bookmark_key],
                       outline := outline self @ [(text, bookmark_key, level)],
                       toc_entries := toc_entries self @ [(level, text, page)],
                       last_outline_level := level\<rparr>))"

text \<open>
  \<^verbatim>\<open>doc.build(story)\<close>: the layout engine places the flowables in order and calls the hook
  after each one. \<open>page_of i\<close> is the page on which it places flowable number \<open>i\<close>. (A
  flowable the engine splits over two frames gets a call for each piece; a story is taken
  here as the sequence of pieces placed.)
\<close>

fun build_from :: "(nat \<Rightarrow> nat) \<Rightarrow> nat \<Rightarrow> doc_state \<Rightarrow> flowable list \<Rightarrow> doc_state" where
  "build_from page_of i self [] = self"
| "build_from page_of i self (flowable # story) =
     build_from page_of (Suc i) (afterFlowable self (page_of i) flowable) story"

definition build :: "(nat \<Rightarrow> nat) \<Rightarrow> flowable list \<Rightarrow> doc_state" where
  "build page_of story = build_from page_of 0 init_doc story"

text \<open>
  What the table of contents holds. \<^verbatim>\<open>self.notify\<close> hands a notification to the indexing
  flowables registered with the document template, and to nobody else. The layout library
  registers the indexing flowables of a story in \<^verbatim>\<open>multiBuild\<close>, which lays the story out
  repeatedly; the single pass of \<^verbatim>\<open>build\<close> registers none. \<^verbatim>\<open>generate_pdf\<close> calls
  \<^verbatim>\<open>doc.build(story)\<close>.
\<close>

datatype pass = SinglePass | MultiPass

definition listeners :: "pass \<Rightarrow> flowable list \<Rightarrow> flowable list" where
  "listeners how story =
     (case how of SinglePass \<Rightarrow> [] | MultiPass \<Rightarrow> filter (\<lambda>f. f = TableOfContents) story)"

definition table_entries :: "pass \<Rightarrow> flowable list \<Rightarrow> doc_state \<Rightarrow> (int \<times> string \<times> nat) list" where
  "table_entries how story doc =
     (if TableOfContents \<in> set (listeners how story) then toc_entries doc else [])"

text \<open>
  The loop \<^verbatim>\<open>for idx, part in enumerate(dir_parts)\<close>. It returns the final
  \<^verbatim>\<open>current_dir_parts\<close> and, for every heading it appends, the index and the value of
  \<^verbatim>\<open>current_dir_parts\<close> the heading is made from.
\<close>

fun dir_loop :: "string list \<Rightarrow> string list \<Rightarrow> (nat \<times> string) list
    \<Rightarrow> string list \<times> (nat \<times> string list) list" where
  "dir_loop dir_parts current_dir_parts [] = (current_dir_parts, [])"
| "dir_loop dir_parts current_dir_parts ((idx, part) # rest) =
     (if length current_dir_parts > idx \<and> current_dir_parts ! idx = part
      then dir_loop dir_parts current_dir_parts rest
      else (let current_dir_parts' = take (idx + 1) dir_parts;
                r = dir_loop dir_parts current_dir_parts' rest
            in (fst r, (idx, current_dir_parts') # snd r)))"

definition dir_heading :: "nat \<times> string list \<Rightarrow> flowable" where
  "dir_heading e =
     (case e of (idx, current_dir_parts) \<Rightarrow>
        Paragraph (join ''/'' current_dir_parts) (if idx = 0 then ''Heading1'' else ''Heading2''))"

definition file_heading_style :: "string list \<Rightarrow> string" where
  "file_heading_style dir_parts = (if length dir_parts \<ge> 2 then ''Heading3'' else ''Heading2'')"

text \<open>
  What the program reads from its surroundings while it assembles: whether the two
  libraries import, the text of each file (\<open>None\<close> is \<^verbatim>\<open>OSError\<close>), today's date, the pages
  the layout engine chooses, and an error the layout engine may raise while building.
\<close>

datatype error = RuntimeError string | OSError | LayoutError string

record render_env =
  reportlab_ok :: bool
  pygments_lib :: "pygments option"
  read_text :: "string \<Rightarrow> string option"
  today :: string
  page_of :: "flowable list \<Rightarrow> nat \<Rightarrow> nat"
  build_error :: "string option"

text \<open>The body of \<^verbatim>\<open>for path in files\<close> after the directory headings.\<close>

definition file_body :: "render_env \<Rightarrow> string \<Rightarrow> path \<Rightarrow> bool \<Rightarrow> bool \<Rightarrow> flowable list" where
  "file_body env repo_root p highlight show_line_numbers =
     (let rel_str = join ''/'' (fst p @ [snd p]);
          path_str = repo_root @ ''/'' @ rel_str;
          text0 = (case read_text env path_str of Some t \<Rightarrow> t | None \<Rightarrow> ''[Error reading file]'');
          text = replace_char (CHR 0x09) ''    '' text0;
          lines0 = build_code_lines (pygments_lib env) text path_str highlight;
          lines = (if show_line_numbers then add_line_numbers lines0 else lines0);
          joined = join [newline] lines
      in [Paragraph rel_str (file_heading_style (fst p)),
          (if highlight then XPreformatted joined else Preformatted joined),
          PageBreak])"

fun file_loop :: "render_env \<Rightarrow> string \<Rightarrow> bool \<Rightarrow> bool \<Rightarrow> string list \<Rightarrow> path list
    \<Rightarrow> flowable list" where
  "file_loop env repo_root highlight show_line_numbers current_dir_parts [] = []"
| "file_loop env repo_root highlight show_line_numbers current_dir_parts (p # files) =
     (let dir_parts = fst p;
          r = dir_loop dir_parts current_dir_parts (enumerate 0 dir_parts)
      in map dir_heading (snd r)
         @ file_body env repo_root p highlight show_line_numbers
         @ file_loop env repo_root highlight show_line_numbers (fst r) files)"

definition front_matter :: "render_env \<Rightarrow> string \<Rightarrow> string \<Rightarrow> string \<Rightarrow> flowable list" where
  "front_matter env title tree_text source_label =
     [Paragraph (''Repository: '' @ title) ''Title'',
      Paragraph (''Source: '' @ source_label) ''Normal'',
      Paragraph (''Generated: '' @ today env) ''Normal'',
      Spacer 1 12,
      Paragraph ''Directory'' ''Heading1'',
      Preformatted tree_text,
      PageBreak,
      Paragraph ''Table of Contents'' ''Heading1'',
      TableOfContents,
      PageBreak]"

definition story_of :: "render_env \<Rightarrow> string \<Rightarrow> string \<Rightarrow> path list \<Rightarrow> string \<Rightarrow> string
    \<Rightarrow> bool \<Rightarrow> bool \<Rightarrow> flowable list" where
  "story_of env repo_root title files tree_text source_label highlight show_line_numbers =
     front_matter env title tree_text source_label
     @ file_loop env repo_root highlight show_line_numbers [] files"

text \<open>The document \<^verbatim>\<open>doc.build\<close> writes to the output path when it returns.\<close>

record document =
  doc_story :: "flowable list"
  doc_final :: doc_state

definition generate_pdf :: "render_env \<Rightarrow> string \<Rightarrow> string \<Rightarrow> path list \<Rightarrow> string \<Rightarrow> string
    \<Rightarrow> bool \<Rightarrow> bool \<Rightarrow> error + document" where
  "generate_pdf env repo_root title files tree_text source_label highlight show_line_numbers =
     (if \<not> reportlab_ok env
      then Inl (RuntimeError
             ''Missing dependency: reportlab. Install with: pip install -r requirements.txt'')
      else (let story = story_of env repo_root title files tree_text source_label
                          highlight show_line_numbers
            in (case build_error env of
                  Some msg \<Rightarrow> Inl (LayoutError msg)
                | None \<Rightarrow>
                    Inr \<lparr>doc_story = story, doc_final = build (page_of env story) story\<rparr>)))"

section \<open>The run: \<^verbatim>\<open>main\<close>\<close>

text \<open>
  The parsed command line, and what the run finds around it: the directory
  \<^verbatim>\<open>tempfile.mkdtemp\<close> creates (\<open>None\<close> when it raises), the outcome of the shallow clone
  of a URL into a target (the captured output of a failed command, or the tree cloned),
  path resolution, the directory at a resolved local path (\<open>None\<close> when nothing exists
  there), and whether \<^verbatim>\<open>shutil.rmtree\<close> manages to delete.
\<close>

record args =
  source_arg :: string
  output_arg :: string
  include_ext :: string
  exclude_dirs_arg :: string
  max_file_size_kb :: int
  no_highlight :: bool
  no_line_numbers :: bool

record run_env =
  renv :: render_env
  mkdtemp :: "string option"
  git_clone :: "string \<Rightarrow> string \<Rightarrow> string + dir"
  resolve :: "string \<Rightarrow> string"
  local_dir :: "string \<Rightarrow> dir option"
  rmtree_ok :: bool

text \<open>What the run changes: the temporary directories that exist, the files written, the
  lines printed.\<close>

record world =
  temp_dirs :: "string list"
  written :: "(string \<times> document) list"
  printed :: "string list"

text \<open>\<^verbatim>\<open>shutil.rmtree(temp_dir, ignore_errors=True)\<close>: a failure leaves the directory and
  raises nothing.\<close>

definition rmtree :: "run_env \<Rightarrow> string \<Rightarrow> world \<Rightarrow> world" where
  "rmtree env temp_dir w =
     (if rmtree_ok env then w\<lparr>temp_dirs := removeAll temp_dir (temp_dirs w)\<rparr> else w)"

definition parse_include_exts :: "string \<Rightarrow> string set" where
  "parse_include_exts s =
     set (map (\<lambda>e. lower (strip e)) (filter (\<lambda>e. strip e \<noteq> []) (split_on (CHR '','') s)))"

definition parse_exclude_dirs :: "string \<Rightarrow> string set" where
  "parse_exclude_dirs s =
     set (map strip (filter (\<lambda>d. strip d \<noteq> []) (split_on (CHR '','') s)))"

text \<open>
  The first statement of the \<^verbatim>\<open>try\<close> block: the value of \<^verbatim>\<open>temp_dir\<close> when it ends, and
  either the exception raised or the root's path, the tree there and the source label.
\<close>

definition acquire :: "run_env \<Rightarrow> args \<Rightarrow> world
    \<Rightarrow> string option \<times> (error + string \<times> dir \<times> string) \<times> world" where
  "acquire env a w =
     (if is_github_url (source_arg a) then
        (case mkdtemp env of
           None \<Rightarrow> (None, Inl OSError, w)
         | Some temp_dir \<Rightarrow>
             (let w1 = w\<lparr>temp_dirs := temp_dir # temp_dirs w\<rparr>;
                  repo_root = temp_dir @ ''/repo''
              in (case git_clone env (source_arg a) repo_root of
                    Inl out \<Rightarrow>
                      (Some temp_dir,
                       Inl (RuntimeError
                              (''Command failed: git clone --depth 1 '' @ source_arg a @ '' ''
                               @ repo_root @ [newline] @ out)),
                       w1)
                  | Inr tree \<Rightarrow> (Some temp_dir, Inr (repo_root, tree, source_arg a), w1))))
      else
        (let repo_root = resolve env (source_arg a)
         in (case local_dir env repo_root of
               None \<Rightarrow> (None, Inl (RuntimeError (''Path does not exist: '' @ repo_root)), w)
             | Some tree \<Rightarrow> (None, Inr (repo_root, tree, repo_root), w))))"

text \<open>The rest of the \<^verbatim>\<open>try\<close> block, from \<^verbatim>\<open>build_tree\<close> to the final \<^verbatim>\<open>print\<close>.\<close>

definition produce :: "run_env \<Rightarrow> args \<Rightarrow> string \<times> dir \<times> string \<Rightarrow> world
    \<Rightarrow> (error + unit) \<times> world" where
  "produce env a acquired w =
     (case acquired of (repo_root, tree, source_label) \<Rightarrow>
        (let include_exts = parse_include_exts (include_ext a);
             exclude_dirs = parse_exclude_dirs (exclude_dirs_arg a);
             tree_text = build_tree tree include_exts exclude_dirs;
             files = collect_files tree include_exts exclude_dirs (max_file_size_kb a)
         in if files = []
            then (Inl (RuntimeError ''No files found with the selected extensions.''), w)
            else (let output_path = resolve env (output_arg a)
                  in (case generate_pdf (renv env) repo_root (dname tree) files tree_text
                             source_label (\<not> no_highlight a) (\<not> no_line_numbers a) of
                        Inl e \<Rightarrow> (Inl e, w)
                      | Inr doc \<Rightarrow>
                          (Inr (),
                           w\<lparr>written := (output_path, doc) # written w,
                             printed := printed w @ [''PDF created: '' @ output_path]\<rparr>)))))"

definition try_block :: "run_env \<Rightarrow> args \<Rightarrow> world \<Rightarrow> string option \<times> (error + unit) \<times> world" where
  "try_block env a w =
     (case acquire env a w of
        (temp_dir, Inl e, w1) \<Rightarrow> (temp_dir, Inl e, w1)
      | (temp_dir, Inr acquired, w1) \<Rightarrow> (temp_dir, produce env a acquired w1))"

text \<open>\<^verbatim>\<open>main\<close>: the \<^verbatim>\<open>try\<close> block, then the \<^verbatim>\<open>finally\<close> clause on every way out of it.\<close>

definition main :: "run_env \<Rightarrow> args \<Rightarrow> world \<Rightarrow> (error + unit) \<times> world" where
  "main env a w =
     (case try_block env a w of
        (temp_dir, res, w1) \<Rightarrow>
          (res,
           (case temp_dir of
              None \<Rightarrow> w1
            | Some t \<Rightarrow> if t \<noteq> [] then rmtree env t w1 else w1)))"

section \<open>Escaping\<close>

definition esc1 :: "char \<Rightarrow> string" where
  "esc1 c =
     (if c = CHR ''&'' then ''&amp;''
      else if c = CHR ''>'' then ''&gt;''
      else if c = CHR ''<'' then ''&lt;''
      else [c])"

lemma replace_char_append:
  "replace_char c r (xs @ ys) = replace_char c r xs @ replace_char c r ys"
  by (simp add: replace_char_def)

lemma replace_char_Nil: "replace_char c r [] = []"
  by (simp add: replace_char_def)

lemma replace_char_Cons:
  "replace_char c r (x # xs) = (if x = c then r else [x]) @ replace_char c r xs"
  by (simp add: replace_char_def)

lemma escape_Nil: "escape [] = []"
  by (simp add: escape_def replace_char_Nil)

lemma escape_Cons: "escape (x # xs) = esc1 x @ escape xs"
  by (simp add: escape_def esc1_def replace_char_Cons replace_char_append replace_char_Nil)

lemma escape_concat: "escape s = concat (map esc1 s)"
  by (induction s) (simp_all add: escape_Nil escape_Cons)

lemma length_esc1: "1 \<le> length (esc1 c)"
  by (simp add: esc1_def)

lemma length_escape: "length s \<le> length (escape s)"
proof (induction s)
  case Nil
  show ?case by (simp add: escape_Nil)
next
  case (Cons x xs)
  have "1 \<le> length (esc1 x)" by (rule length_esc1)
  with Cons show ?case by (simp add: escape_Cons)
qed

definition reserved :: "char set" where
  "reserved = {CHR ''&'', CHR ''<'', CHR ''>''}"

lemma esc1_plain: "c \<notin> reserved \<Longrightarrow> esc1 c = [c]"
  by (simp add: esc1_def reserved_def)

lemma esc1_reserved: "c \<in> reserved \<Longrightarrow> 4 \<le> length (esc1 c)"
  by (auto simp: esc1_def reserved_def)

lemma escape_fixed_iff: "escape s = s \<longleftrightarrow> set s \<inter> reserved = {}"
proof (induction s)
  case Nil
  show ?case by (simp add: escape_Nil)
next
  case (Cons x xs)
  show ?case
  proof (cases "x \<in> reserved")
    case True
    have "length (x # xs) < length (escape (x # xs))"
      using esc1_reserved [OF True] length_escape [of xs] by (simp add: escape_Cons)
    then have "escape (x # xs) \<noteq> x # xs" by auto
    with True show ?thesis by auto
  next
    case False
    then show ?thesis using Cons by (simp add: escape_Cons esc1_plain)
  qed
qed

text \<open>
  C2 (as stated, refuted). The text \<^verbatim>\<open>&lt;\<close> is the escaped form of \<^verbatim>\<open><\<close>: its reserved
  characters are already escaped. Escaping it again does not return it unchanged, it
  escapes the ampersand once more.
\<close>

theorem escape_twice_counterexample:
  "escape ''<'' = ''&lt;'' \<and> escape (escape ''<'') = ''&amp;lt;'' \<and>
   escape (escape ''<'') \<noteq> escape ''<''"
  by (simp add: escape_def replace_char_def)

text \<open>
  C2 (amended). Escaping returns a string unchanged exactly when the string contains none of
  the characters \<^verbatim>\<open>&\<close>, \<^verbatim>\<open><\<close>, \<^verbatim>\<open>>\<close>; and the renderer with highlighting off applies it
  exactly once to every line of the split text, so nothing is escaped twice there.
\<close>

theorem escape_unchanged_iff_no_reserved:
  "(escape s = s \<longleftrightarrow> set s \<inter> {CHR ''&'', CHR ''<'', CHR ''>''} = {}) \<and>
   build_code_lines pyg text filename False = map escape (split_on newline text)"
  using escape_fixed_iff [of s] by (simp add: reserved_def build_code_lines_def)

lemma lt_notin_esc1: "CHR ''<'' \<notin> set (esc1 c)"
  by (simp add: esc1_def)

lemma lt_notin_escape: "CHR ''<'' \<notin> set (escape s)"
  by (induction s) (simp_all add: escape_Nil escape_Cons lt_notin_esc1)

lemma length_split_on: "length (split_on c s) = Suc (count_list s c)"
  by (induction s) simp_all

text \<open>
  C7. With highlighting disabled, or with the tokenizer library missing, the rendered lines
  are the text split on newlines with every line escaped; no line carries a colour span (no
  line even contains the character \<^verbatim>\<open><\<close>); and there are as many lines as
  \<^verbatim>\<open>text.split("\n")\<close> has elements, one more than the text has newlines.
\<close>

theorem build_code_lines_plain:
  assumes "\<not> highlight \<or> pyg = None"
  shows "build_code_lines pyg text filename highlight = map escape (split_on newline text) \<and>
         length (build_code_lines pyg text filename highlight) = length (split_on newline text) \<and>
         length (build_code_lines pyg text filename highlight) = Suc (count_list text newline) \<and>
         (\<forall>l \<in> set (build_code_lines pyg text filename highlight). CHR ''<'' \<notin> set l)"
  using assms by (auto simp: build_code_lines_def length_split_on lt_notin_escape)

theorem build_code_lines_plain_witness:
  "build_code_lines None (''a<b'' @ [newline] @ ''c&d'' @ [newline]) ''f.py'' True
     = [''a&lt;b'', ''c&amp;d'', []] \<and>
   length (build_code_lines None (''a<b'' @ [newline] @ ''c&d'' @ [newline]) ''f.py'' True) = 3"
  using build_code_lines_plain [of True None "''a<b'' @ [newline] @ ''c&d'' @ [newline]" "''f.py''"]
  by (simp add: escape_def replace_char_def newline_def)

section \<open>Outline levels and table-of-contents entries\<close>

text \<open>
  The level a flowable asks for (\<open>None\<close> when the hook ignores it), the levels and texts
  recorded in a document state, and two ways to say that levels never jump: a chain in which
  each level is at most one more than the one before, and the clamping of a list of levels.
\<close>

definition nominal_level :: "flowable \<Rightarrow> int option" where
  "nominal_level f = (case flowable_style f of None \<Rightarrow> None | Some s \<Rightarrow> level_map s)"

definition nominal_levels :: "flowable list \<Rightarrow> int list" where
  "nominal_levels story = List.map_filter nominal_level story"

definition is_heading :: "flowable \<Rightarrow> bool" where
  "is_heading f = (nominal_level f \<noteq> None)"

definition heading_texts :: "flowable list \<Rightarrow> string list" where
  "heading_texts story = map getPlainText (filter is_heading story)"

definition toc_levels :: "doc_state \<Rightarrow> int list" where
  "toc_levels st = map fst (toc_entries st)"

definition notified_texts :: "doc_state \<Rightarrow> string list" where
  "notified_texts st = map (\<lambda>e. fst (snd e)) (toc_entries st)"

definition outline_levels :: "doc_state \<Rightarrow> int list" where
  "outline_levels st = map (\<lambda>e. snd (snd e)) (outline st)"

fun level_chain :: "int \<Rightarrow> int list \<Rightarrow> bool" where
  "level_chain prev [] = True"
| "level_chain prev (l # ls) = (l \<le> prev + 1 \<and> level_chain l ls)"

fun clamp_levels :: "int \<Rightarrow> int list \<Rightarrow> int list" where
  "clamp_levels prev [] = []"
| "clamp_levels prev (n # ns) = min n (prev + 1) # clamp_levels (min n (prev + 1)) ns"

text \<open>The texts of the headings the per-file loop appends: for each file its directory
  headings, then its own heading.\<close>

fun loop_heading_texts :: "string list \<Rightarrow> path list \<Rightarrow> string list" where
  "loop_heading_texts cur [] = []"
| "loop_heading_texts cur (p # files) =
     map (\<lambda>e. join ''/'' (snd e)) (snd (dir_loop (fst p) cur (enumerate 0 (fst p))))
     @ [join ''/'' (fst p @ [snd p])]
     @ loop_heading_texts (fst (dir_loop (fst p) cur (enumerate 0 (fst p)))) files"

definition env0 :: render_env where
  "env0 = \<lparr>reportlab_ok = True, pygments_lib = None, read_text = (\<lambda>p. None),
           today = ''2024-01-01'', page_of = (\<lambda>story i. i), build_error = None\<rparr>"

lemma afterFlowable_other:
  "nominal_level f = None \<Longrightarrow> afterFlowable st pg f = st"
  by (auto simp: afterFlowable_def nominal_level_def split: option.splits)

lemma afterFlowable_heading:
  assumes "nominal_level f = Some n"
  shows "toc_entries (afterFlowable st pg f)
           = toc_entries st @ [(min n (last_outline_level st + 1), getPlainText f, pg)]"
    and "last_outline_level (afterFlowable st pg f) = min n (last_outline_level st + 1)"
    and "map (\<lambda>e. snd (snd e)) (outline (afterFlowable st pg f))
           = map (\<lambda>e. snd (snd e)) (outline st) @ [min n (last_outline_level st + 1)]"
    and "heading_count (afterFlowable st pg f) = Suc (heading_count st)"
  using assms
  by (auto simp: afterFlowable_def nominal_level_def Let_def min_def split: option.splits)

lemma level_chain_clamp: "level_chain prev (clamp_levels prev ns)"
  by (induction ns arbitrary: prev) auto

lemma build_from_levels:
  "map fst (toc_entries (build_from pg i st story))
     = map fst (toc_entries st) @ clamp_levels (last_outline_level st) (nominal_levels story)"
proof (induction story arbitrary: i st)
  case Nil
  then show ?case by (simp add: nominal_levels_def List.map_filter_simps)
next
  case (Cons f story)
  show ?case
  proof (cases "nominal_level f")
    case None
    then show ?thesis
      using Cons [of "Suc i" st]
      by (simp add: afterFlowable_other nominal_levels_def List.map_filter_simps)
  next
    case (Some n)
    then show ?thesis
      using Cons [of "Suc i" "afterFlowable st (pg i) f"]
      by (simp add: afterFlowable_heading nominal_levels_def List.map_filter_simps)
  qed
qed

lemma build_from_outline_levels:
  "map (\<lambda>e. snd (snd e)) (outline (build_from pg i st story))
     = map (\<lambda>e. snd (snd e)) (outline st)
       @ clamp_levels (last_outline_level st) (nominal_levels story)"
proof (induction story arbitrary: i st)
  case Nil
  then show ?case by (simp add: nominal_levels_def List.map_filter_simps)
next
  case (Cons f story)
  show ?case
  proof (cases "nominal_level f")
    case None
    then show ?thesis
      using Cons [of "Suc i" st]
      by (simp add: afterFlowable_other nominal_levels_def List.map_filter_simps)
  next
    case (Some n)
    then show ?thesis
      using Cons [of "Suc i" "afterFlowable st (pg i) f"]
      by (simp add: afterFlowable_heading nominal_levels_def List.map_filter_simps)
  qed
qed

lemma build_from_texts:
  "map (\<lambda>e. fst (snd e)) (toc_entries (build_from pg i st story))
     = map (\<lambda>e. fst (snd e)) (toc_entries st) @ heading_texts story"
proof (induction story arbitrary: i st)
  case Nil
  then show ?case by (simp add: heading_texts_def)
next
  case (Cons f story)
  show ?case
  proof (cases "nominal_level f")
    case None
    then show ?thesis
      using Cons [of "Suc i" st]
      by (simp add: afterFlowable_other heading_texts_def is_heading_def)
  next
    case (Some n)
    then show ?thesis
      using Cons [of "Suc i" "afterFlowable st (pg i) f"]
      by (simp add: afterFlowable_heading heading_texts_def is_heading_def)
  qed
qed

text \<open>
  C4. Whatever the story and the pagination, the levels recorded for the outline and for the
  table of contents are the nominal levels of the headings, each clamped to one more than
  the level recorded before it (starting from \<open>-1\<close>); so every recorded level is at most one
  deeper than the previous recorded level, and the first is at most \<open>0\<close>.
\<close>

theorem outline_levels_clamped:
  "toc_levels (build pg story) = clamp_levels (- 1) (nominal_levels story) \<and>
   outline_levels (build pg story) = clamp_levels (- 1) (nominal_levels story) \<and>
   level_chain (- 1) (toc_levels (build pg story)) \<and>
   level_chain (- 1) (outline_levels (build pg story))"
  by (simp add: toc_levels_def outline_levels_def build_def build_from_levels
      build_from_outline_levels init_doc_def level_chain_clamp)

theorem outline_levels_clamped_witness:
  "toc_levels (build id [Paragraph ''x'' ''Heading3'', Paragraph ''y'' ''Heading3'',
      Preformatted ''z'', Paragraph ''a'' ''Heading1'', Paragraph ''b'' ''Heading3''])
     = [0, 1, 0, 1]"
  using outline_levels_clamped [of id "[Paragraph ''x'' ''Heading3'', Paragraph ''y'' ''Heading3'',
      Preformatted ''z'', Paragraph ''a'' ''Heading1'', Paragraph ''b'' ''Heading3'']"]
  by (simp add: nominal_levels_def List.map_filter_simps nominal_level_def level_map_def)

section \<open>Headings of the per-file loop\<close>

lemma heading_texts_append: "heading_texts (xs @ ys) = heading_texts xs @ heading_texts ys"
  by (simp add: heading_texts_def)

lemma is_heading_dir_heading: "is_heading (dir_heading e)"
  by (cases e) (simp add: is_heading_def nominal_level_def dir_heading_def level_map_def)

lemma getPlainText_dir_heading: "getPlainText (dir_heading e) = join ''/'' (snd e)"
  by (cases e) (simp add: dir_heading_def)

lemma heading_texts_dir_headings:
  "heading_texts (map dir_heading es) = map (\<lambda>e. join ''/'' (snd e)) es"
  by (induction es) (simp_all add: heading_texts_def is_heading_dir_heading getPlainText_dir_heading)

lemma heading_texts_file_body:
  "heading_texts (file_body env root p hl ln) = [join ''/'' (fst p @ [snd p])]"
  by (simp add: file_body_def Let_def heading_texts_def is_heading_def nominal_level_def
      level_map_def file_heading_style_def)

lemma heading_texts_file_loop:
  "heading_texts (file_loop env root hl ln cur files) = loop_heading_texts cur files"
proof (induction files arbitrary: cur)
  case Nil
  show ?case by (simp add: heading_texts_def)
next
  case (Cons p files)
  show ?case
    by (simp add: Let_def heading_texts_append heading_texts_dir_headings
        heading_texts_file_body Cons)
qed

lemma heading_texts_front_matter:
  "heading_texts (front_matter env title tree_text label) = [''Directory'', ''Table of Contents'']"
  by (simp add: front_matter_def heading_texts_def is_heading_def nominal_level_def level_map_def)

lemma notified_texts_build: "notified_texts (build pg story) = heading_texts story"
  by (simp add: notified_texts_def build_def build_from_texts init_doc_def)

text \<open>The document of a run over a repository with the single file \<^verbatim>\<open>x.py\<close>, and the
  entries the table of contents of a written document holds: \<^verbatim>\<open>generate_pdf\<close> builds in a
  single pass.\<close>

definition doc0 :: document where
  "doc0 = \<lparr>doc_story = story_of env0 ''/r'' ''r'' [([], ''x.py'')] ''r/'' ''/r'' False False,
           doc_final = build id
             (story_of env0 ''/r'' ''r'' [([], ''x.py'')] ''r/'' ''/r'' False False)\<rparr>"

definition written_toc :: "document \<Rightarrow> (int \<times> string \<times> nat) list" where
  "written_toc doc = table_entries SinglePass (doc_story doc) (doc_final doc)"

text \<open>
  C5 (the code misses it). For a repository with the single file \<^verbatim>\<open>x.py\<close> the program writes
  a document; while building it the hook sends a \<^verbatim>\<open>TOCEntry\<close> notification for the two
  front-matter headings and for the one heading of the per-file loop, so the code sets out
  to fill the table; but the single-pass build has registered no listener, and the table of
  contents of the written document holds no entry at all, not even the one for \<^verbatim>\<open>x.py\<close>.
  Built in several passes, the same story would deliver the three notifications.
\<close>

theorem toc_not_populated:
  "generate_pdf env0 ''/r'' ''r'' [([], ''x.py'')] ''r/'' ''/r'' False False = Inr doc0 \<and>
   notified_texts (doc_final doc0) = [''Directory'', ''Table of Contents'', ''x.py''] \<and>
   loop_heading_texts [] [([], ''x.py'')] = [''x.py''] \<and>
   written_toc doc0 = [] \<and>
   map (\<lambda>e. fst (snd e)) (table_entries MultiPass (doc_story doc0) (doc_final doc0))
     = [''Directory'', ''Table of Contents'', ''x.py'']"
proof -
  have g: "generate_pdf env0 ''/r'' ''r'' [([], ''x.py'')] ''r/'' ''/r'' False False = Inr doc0"
    by (simp add: generate_pdf_def env0_def id_def Let_def doc0_def)
  have n: "notified_texts (doc_final doc0) = [''Directory'', ''Table of Contents'', ''x.py'']"
    by (simp add: doc0_def notified_texts_build story_of_def heading_texts_append
        heading_texts_front_matter heading_texts_file_body heading_texts_def [of "[]"])
  have l: "loop_heading_texts [] [([], ''x.py'')] = [''x.py'']"
    by simp
  have w: "written_toc doc0 = []"
    by (simp add: written_toc_def table_entries_def listeners_def)
  have t: "TableOfContents \<in> set (listeners MultiPass (doc_story doc0))"
    by (simp add: listeners_def doc0_def story_of_def front_matter_def)
  have m: "map (\<lambda>e. fst (snd e)) (table_entries MultiPass (doc_story doc0) (doc_final doc0))
     = [''Directory'', ''Table of Contents'', ''x.py'']"
    using n t by (simp add: table_entries_def notified_texts_def)
  from g n l w m show ?thesis by (intro conjI)
qed

section \<open>The directory-heading loop\<close>

lemma dir_loop_fresh:
  "dir_loop (pre @ rest) pre (enumerate (length pre) rest)
     = (pre @ rest,
        map (\<lambda>i. (i, take (Suc i) (pre @ rest))) [length pre ..< length pre + length rest])"
proof (induction rest arbitrary: pre)
  case Nil
  show ?case by simp
next
  case (Cons x xs)
  have "dir_loop (pre @ x # xs) (pre @ [x]) (enumerate (Suc (length pre)) xs)
     = (pre @ x # xs,
        map (\<lambda>i. (i, take (Suc i) (pre @ x # xs))) [Suc (length pre) ..< Suc (length pre) + length xs])"
    using Cons [of "pre @ [x]"] by (simp del: upt_Suc)
  then show ?case
    by (simp add: Let_def upt_conv_Cons del: upt_Suc)
qed

lemma dir_loop_from:
  assumes "prefix pre cur"
  shows "dir_loop (pre @ rest) cur (enumerate (length pre) rest)
     = (if length pre + length (longest_common_prefix (drop (length pre) cur) rest)
            = length (pre @ rest)
        then cur else pre @ rest,
        map (\<lambda>i. (i, take (Suc i) (pre @ rest)))
          [length pre + length (longest_common_prefix (drop (length pre) cur) rest)
             ..< length (pre @ rest)])"
  using assms
proof (induction rest arbitrary: pre)
  case Nil
  show ?case by simp
next
  case (Cons x xs)
  from Cons.prems obtain suf where cur: "cur = pre @ suf"
    by (auto simp: prefix_def)
  have fresh: "dir_loop (pre @ x # xs) (pre @ [x]) (enumerate (Suc (length pre)) xs)
     = (pre @ x # xs,
        map (\<lambda>i. (i, take (Suc i) (pre @ x # xs))) [Suc (length pre) ..< Suc (length pre) + length xs])"
    using dir_loop_fresh [of "pre @ [x]" xs] by (simp del: upt_Suc)
  show ?case
  proof (cases suf)
    case Nil
    with cur fresh show ?thesis by (simp add: Let_def upt_conv_Cons del: upt_Suc)
  next
    case (Cons y ys)
    show ?thesis
    proof (cases "y = x")
      case True
      have "prefix (pre @ [x]) cur" using cur Cons True by simp
      from Cons.IH [OF this] cur Cons True show ?thesis
        by (simp add: nth_append del: upt_Suc)
    next
      case False
      with cur Cons fresh show ?thesis
        by (simp add: Let_def upt_conv_Cons nth_append del: upt_Suc)
    qed
  qed
qed

lemma dir_loop_enumerate:
  "dir_loop dp cur (enumerate 0 dp)
     = (if length (longest_common_prefix cur dp) = length dp then cur else dp,
        map (\<lambda>i. (i, take (Suc i) dp)) [length (longest_common_prefix cur dp) ..< length dp])"
  using dir_loop_from [of "[]" cur dp] by simp

text \<open>
  C9. The directory headings emitted for a file are, for every index \<open>i\<close> from the first
  point where the open segments and the file's directory segments part, a paragraph whose
  text is the first \<open>i + 1\<close> directory segments joined with \<^verbatim>\<open>/\<close>: the full relative path
  of that directory from the root, not its base name.
\<close>

theorem dir_heading_text_is_full_path:
  "map dir_heading (snd (dir_loop dir_parts cur (enumerate 0 dir_parts)))
     = map (\<lambda>i. Paragraph (join ''/'' (take (Suc i) dir_parts))
                  (if i = 0 then ''Heading1'' else ''Heading2''))
         [length (longest_common_prefix cur dir_parts) ..< length dir_parts]"
  by (simp add: dir_loop_enumerate dir_heading_def)

theorem dir_heading_text_is_full_path_witness:
  "map dir_heading (snd (dir_loop [''a'', ''b'', ''c''] [''a'', ''x'']
       (enumerate 0 [''a'', ''b'', ''c''])))
     = [Paragraph ''a/b'' ''Heading2'', Paragraph ''a/b/c'' ''Heading2'']"
  using dir_heading_text_is_full_path [of "[''a'', ''b'', ''c'']" "[''a'', ''x'']"]
  by (simp add: upt_conv_Cons del: upt_Suc)

text \<open>
  C10. The style of a file's heading is decided by the number of its directory segments
  alone: the third heading level (outline level 2) with two or more segments, the second
  (outline level 1) with one or none. A file directly in the root gets a second-level heading
  with no directory heading before it, and leaves the open segments as they were.
\<close>

theorem file_heading_level_by_depth:
  "hd (file_body env root (dir_parts, name) hl ln)
     = Paragraph (join ''/'' (dir_parts @ [name]))
         (if 2 \<le> length dir_parts then ''Heading3'' else ''Heading2'') \<and>
   nominal_level (hd (file_body env root (dir_parts, name) hl ln))
     = Some (if 2 \<le> length dir_parts then 2 else 1) \<and>
   file_loop env root hl ln cur (([], name) # files)
     = file_body env root ([], name) hl ln @ file_loop env root hl ln cur files"
  by (simp add: file_body_def Let_def file_heading_style_def nominal_level_def level_map_def)

theorem file_heading_level_by_depth_witness:
  "hd (file_body env0 ''/r'' ([''a'', ''b''], ''x.py'') False False)
     = Paragraph ''a/b/x.py'' ''Heading3'' \<and>
   hd (file_body env0 ''/r'' ([''a''], ''y.py'') False False) = Paragraph ''a/y.py'' ''Heading2'' \<and>
   hd (file_body env0 ''/r'' ([], ''z.py'') False False) = Paragraph ''z.py'' ''Heading2'' \<and>
   file_loop env0 ''/r'' False False [''a''] [([], ''z.py'')]
     = file_body env0 ''/r'' ([], ''z.py'') False False"
  using file_heading_level_by_depth [of env0 "''/r''" "[''a'', ''b'']" "''x.py''" False False "[''a'']" "[]"]
    file_heading_level_by_depth [of env0 "''/r''" "[''a'']" "''y.py''" False False "[''a'']" "[]"]
    file_heading_level_by_depth [of env0 "''/r''" "[]" "''z.py''" False False "[''a'']" "[]"]
  by simp

section \<open>The run: failure on an empty selection, and the temporary directory\<close>

text \<open>A concrete run, for the examples: a local directory whose only file is above the size
  ceiling, and a remote repository with one small file.\<close>

definition run0 :: run_env where
  "run0 = \<lparr>renv = env0, mkdtemp = Some ''/tmp/gh2pdf_x'',
            git_clone = (\<lambda>url target. if url = ''https://github.com/o/r''
                           then Inr (Dir ''repo'' [(''x.py'', Some 100)] []) else Inl ''fatal''),
            resolve = (\<lambda>p. p),
            local_dir = (\<lambda>p. if p = ''/r'' then Some (Dir ''r'' [(''big.py'', Some 2000000)] [])
                           else None),
            rmtree_ok = True\<rparr>"

definition args0 :: args where
  "args0 = \<lparr>source_arg = ''/r'', output_arg = ''repo.pdf'', include_ext = ''.py'',
             exclude_dirs_arg = ''.git'', max_file_size_kb = 512, no_highlight = True,
             no_line_numbers = True\<rparr>"

definition world0 :: world where
  "world0 = \<lparr>temp_dirs = [], written = [], printed = []\<rparr>"

lemma acquire_keeps_output:
  "acquire env a w = (t, r, w1) \<Longrightarrow> written w1 = written w \<and> printed w1 = printed w"
  by (auto simp: acquire_def Let_def split: if_splits option.splits sum.splits)

lemma rmtree_keeps_output:
  "written (rmtree env t w) = written w \<and> printed (rmtree env t w) = printed w"
  by (simp add: rmtree_def)

lemma produce_temp_dirs: "temp_dirs (snd (produce env a acq w)) = temp_dirs w"
  by (cases acq) (auto simp: produce_def Let_def split: sum.splits)

lemma produce_rmtree_ok: "produce (env\<lparr>rmtree_ok := b\<rparr>) a acq w = produce env a acq w"
  by (cases acq) (auto simp: produce_def Let_def split: sum.splits)

lemma acquire_rmtree_ok: "acquire (env\<lparr>rmtree_ok := b\<rparr>) a w = acquire env a w"
  by (auto simp: acquire_def Let_def split: option.splits sum.splits)

lemma try_block_rmtree_ok: "try_block (env\<lparr>rmtree_ok := b\<rparr>) a w = try_block env a w"
  by (auto simp: try_block_def acquire_rmtree_ok produce_rmtree_ok split: prod.splits sum.splits)

lemma try_block_remote:
  assumes "is_github_url (source_arg a)" and "mkdtemp env = Some t"
  shows "fst (try_block env a w) = Some t \<and>
         temp_dirs (snd (snd (try_block env a w))) = t # temp_dirs w"
  using assms
  by (auto simp: try_block_def acquire_def Let_def produce_temp_dirs split: sum.splits)

lemma parse_include_exts_py: "parse_include_exts ''.py'' = {''.py''}"
  by (simp add: parse_include_exts_def strip_def is_space_def lower_def lower_char_def)

lemma parse_exclude_dirs_git: "parse_exclude_dirs ''.git'' = {''.git''}"
  by (simp add: parse_exclude_dirs_def strip_def is_space_def)

text \<open>
  C6. When the root has been acquired and the selection over it is empty, the run ends with
  the error the source raises for this case, \<^verbatim>\<open>RuntimeError("No files found with the selected
  extensions.")\<close>, and it has written no file and printed nothing: no PDF, empty or not.
\<close>

theorem no_files_no_output:
  assumes "acquire env a w = (temp_dir, Inr (repo_root, tree, label), w1)"
    and "collect_files tree (parse_include_exts (include_ext a))
           (parse_exclude_dirs (exclude_dirs_arg a)) (max_file_size_kb a) = []"
  shows "fst (main env a w) = Inl (RuntimeError ''No files found with the selected extensions.'') \<and>
         written (snd (main env a w)) = written w \<and>
         printed (snd (main env a w)) = printed w"
proof -
  from assms(1) have out: "written w1 = written w" "printed w1 = printed w"
    using acquire_keeps_output by blast+
  have p: "produce env a (repo_root, tree, label) w1
             = (Inl (RuntimeError ''No files found with the selected extensions.''), w1)"
    using assms(2) by (simp add: produce_def Let_def)
  show ?thesis
    using assms(1) p out
    by (simp add: main_def try_block_def rmtree_keeps_output split: option.splits)
qed

theorem no_files_no_output_witness:
  "acquire run0 args0 world0
     = (None, Inr (''/r'', Dir ''r'' [(''big.py'', Some 2000000)] [], ''/r''), world0) \<and>
   collect_files (Dir ''r'' [(''big.py'', Some 2000000)] []) {''.py''} {''.git''} 512 = [] \<and>
   fst (main run0 args0 world0)
     = Inl (RuntimeError ''No files found with the selected extensions.'') \<and>
   written (snd (main run0 args0 world0)) = [] \<and>
   printed (snd (main run0 args0 world0)) = []"
proof -
  have h1: "acquire run0 args0 world0
     = (None, Inr (''/r'', Dir ''r'' [(''big.py'', Some 2000000)] [], ''/r''), world0)"
    by (simp add: acquire_def run0_def args0_def is_github_url_def Let_def)
  have c: "collect_files (Dir ''r'' [(''big.py'', Some 2000000)] []) {''.py''} {''.git''} 512 = []"
    by (simp add: collect_files_def filenames_def suffix_of_def lower_def lower_char_def
        stat_size_def)
  have h2: "collect_files (Dir ''r'' [(''big.py'', Some 2000000)] [])
      (parse_include_exts (include_ext args0)) (parse_exclude_dirs (exclude_dirs_arg args0))
      (max_file_size_kb args0) = []"
    using c by (simp add: args0_def parse_include_exts_py parse_exclude_dirs_git)
  from no_files_no_output [OF h1 h2] h1 c show ?thesis
    by (simp add: world0_def)
qed

text \<open>
  C8. When the source is a repository URL and the temporary directory has been created, then
  however the \<^verbatim>\<open>try\<close> block ends (clone failure, empty selection, missing library, layout
  error, success), the \<^verbatim>\<open>finally\<close> clause runs the removal: if the removal succeeds the
  directory is gone at the end of the run, and if it fails the directory stays but nothing is
  raised: the outcome of the run is the outcome of the \<^verbatim>\<open>try\<close> block either way.
\<close>

theorem temp_dir_removed_on_every_exit:
  assumes "is_github_url (source_arg a)" and "mkdtemp env = Some t" and "t \<noteq> []"
  shows "temp_dirs (snd (main env a w))
           = (if rmtree_ok env then removeAll t (temp_dirs w) else t # temp_dirs w) \<and>
         fst (main env a w) = fst (snd (try_block env a w)) \<and>
         fst (main (env\<lparr>rmtree_ok := b\<rparr>) a w) = fst (main env a w)"
proof -
  obtain td res w1 where tb: "try_block env a w = (td, res, w1)"
    by (cases "try_block env a w") auto
  from try_block_remote [OF assms(1,2), of w] tb
  have td: "td = Some t" and w1: "temp_dirs w1 = t # temp_dirs w" by auto
  have tb': "try_block (env\<lparr>rmtree_ok := b\<rparr>) a w = (td, res, w1)"
    using tb by (simp add: try_block_rmtree_ok)
  show ?thesis
    using tb tb' td w1 assms(3) by (simp add: main_def rmtree_def)
qed

theorem temp_dir_removed_on_every_exit_witness:
  "temp_dirs (snd (main run0 (args0\<lparr>source_arg := ''https://github.com/o/r''\<rparr>) world0)) = [] \<and>
   temp_dirs (snd (main run0 (args0\<lparr>source_arg := ''https://github.com/o/none''\<rparr>) world0)) = [] \<and>
   fst (main run0 (args0\<lparr>source_arg := ''https://github.com/o/none''\<rparr>) world0)
     = fst (main (run0\<lparr>rmtree_ok := False\<rparr>) (args0\<lparr>source_arg := ''https://github.com/o/none''\<rparr>)
              world0) \<and>
   temp_dirs (snd (main (run0\<lparr>rmtree_ok := False\<rparr>)
       (args0\<lparr>source_arg := ''https://github.com/o/r''\<rparr>) world0)) = [''/tmp/gh2pdf_x'']"
proof -
  have u1: "is_github_url (source_arg (args0\<lparr>source_arg := ''https://github.com/o/r''\<rparr>))"
    and u2: "is_github_url (source_arg (args0\<lparr>source_arg := ''https://github.com/o/none''\<rparr>))"
    by (simp_all add: is_github_url_def)
  have m: "mkdtemp run0 = Some ''/tmp/gh2pdf_x''"
    and m': "mkdtemp (run0\<lparr>rmtree_ok := False\<rparr>) = Some ''/tmp/gh2pdf_x''"
    by (simp_all add: run0_def)
  have n: "''/tmp/gh2pdf_x'' \<noteq> []" by simp
  from temp_dir_removed_on_every_exit [OF u1 m n, of world0 False]
    temp_dir_removed_on_every_exit [OF u2 m n, of world0 False]
    temp_dir_removed_on_every_exit [OF u1 m' n, of world0 False]
  show ?thesis
    by (simp add: world0_def run0_def)
qed

section \<open>The tree text and the file list\<close>

fun listed_files :: "tree_item list \<Rightarrow> path list" where
  "listed_files [] = []"
| "listed_files (DirLine rel # items) = listed_files items"
| "listed_files (FileLine rel filename # items) = (rel, filename) # listed_files items"

definition ext_ok :: "string set \<Rightarrow> string \<Rightarrow> bool" where
  "ext_ok include_exts filename \<longleftrightarrow> lower (suffix_of filename) \<in> include_exts"

definition within_ceiling :: "int \<Rightarrow> dir \<Rightarrow> string \<Rightarrow> bool" where
  "within_ceiling max_size_kb d filename \<longleftrightarrow>
     (case stat_size d filename of None \<Rightarrow> False | Some st_size \<Rightarrow> int st_size \<le> 1024 * max_size_kb)"

definition root1 :: dir where
  "root1 = Dir ''r'' [(''big.py'', Some 2000000)] []"

definition root2 :: dir where
  "root2 = Dir ''r'' [(''big.py'', Some 2000000), (''a.py'', Some 100), (''n.txt'', Some 1)]
             [Dir ''.git'' [(''h.py'', Some 1)] [], Dir ''s'' [(''b.py'', Some 5)] []]"

lemma listed_files_append: "listed_files (xs @ ys) = listed_files xs @ listed_files ys"
  by (induction xs rule: listed_files.induct) simp_all

lemma listed_files_FileLines: "listed_files (map (FileLine rel) fs) = map (Pair rel) fs"
  by (induction fs) simp_all

lemma listed_files_tree_block:
  "listed_files (tree_block inc (rel, d)) = map (Pair rel) (filter (ext_ok inc) (sort (filenames d)))"
  unfolding ext_ok_def by (simp add: tree_block_def listed_files_FileLines)

lemma listed_files_concat:
  "listed_files (concat (map (tree_block inc) es))
     = concat (map (\<lambda>(rel, d). map (Pair rel) (filter (ext_ok inc) (sort (filenames d)))) es)"
  by (induction es) (auto simp: listed_files_append listed_files_tree_block)

lemma collect_dir_filter:
  "collect_dir inc mx rel d names
     = map (Pair rel) (filter (within_ceiling mx d) (filter (ext_ok inc) names))"
  by (induction names) (auto simp: ext_ok_def within_ceiling_def split: option.splits)


lemma walk_rel:
  "e \<in> set (walk ex rel d) \<Longrightarrow> \<exists>s. fst e = rel @ s \<and> set s \<inter> ex = {}"
  "e \<in> set (walk_subdirs ex rel ds) \<Longrightarrow> \<forall>c \<in> set ds. dname c \<notin> ex
     \<Longrightarrow> \<exists>s. fst e = rel @ s \<and> set s \<inter> ex = {}"
proof (induction ex rel d and ex rel ds arbitrary: e and e rule: walk_walk_subdirs.induct)
  case (1 ex rel n fs ds)
  from "1.prems" consider "e = (rel, Dir n fs ds)"
    | "e \<in> set (walk_subdirs ex rel (filter (\<lambda>d. dname d \<notin> ex) ds))"
    by auto
  then show ?case
  proof cases
    case 1
    then have "fst e = rel @ [] \<and> set [] \<inter> ex = {}" by simp
    then show ?thesis by blast
  next
    case 2
    have "\<forall>c \<in> set (filter (\<lambda>d. dname d \<notin> ex) ds). dname c \<notin> ex" by simp
    from "1.IH" [OF 2 this] show ?thesis .
  qed
next
  case (2 ex rel)
  then show ?case by simp
next
  case (3 ex rel d ds)
  from "3.prems"(2) have nd: "dname d \<notin> ex" and rest: "\<forall>c \<in> set ds. dname c \<notin> ex" by simp_all
  from "3.prems"(1) consider "e \<in> set (walk ex (rel @ [dname d]) d)" | "e \<in> set (walk_subdirs ex rel ds)"
    by auto
  then show ?case
  proof cases
    case 1
    from "3.IH"(1) [OF 1] obtain s where s: "fst e = (rel @ [dname d]) @ s"
      and ex: "set s \<inter> ex = {}"
      by blast
    from s ex nd have "fst e = rel @ (dname d # s) \<and> set (dname d # s) \<inter> ex = {}" by simp
    then show ?thesis by blast
  next
    case 2
    from "3.IH"(2) [OF 2 rest] show ?thesis .
  qed
qed


lemma listed_files_tree_items:
  "listed_files (tree_items root inc ex)
     = concat (map (\<lambda>(rel, d). map (Pair rel) (filter (ext_ok inc) (sort (filenames d))))
         (walk ex [] root))"
  by (simp add: tree_items_def listed_files_concat)

lemma collect_files_filter:
  "collect_files root inc ex mx
     = concat (map (\<lambda>(rel, d). map (Pair rel)
                 (filter (within_ceiling mx d) (filter (ext_ok inc) (sort (filenames d)))))
         (walk ex [] root))"
  by (simp add: collect_files_def collect_dir_filter)

text \<open>
  C1 (as stated, refuted). A root whose only file has an accepted extension but is larger than
  the ceiling: the tree text lists the file, the file list is empty. The tree applies no
  size ceiling at all.
\<close>

theorem tree_lists_oversize_counterexample:
  "listed_files (tree_items root1 {''.py''} {}) = [([], ''big.py'')] \<and>
   collect_files root1 {''.py''} {} 512 = [] \<and>
   build_tree root1 {''.py''} {} = ''r/'' @ [newline] @ ''  big.py''"
  by (simp add: root1_def tree_items_def tree_block_def collect_files_def filenames_def
      suffix_of_def lower_def lower_char_def stat_size_def build_tree_def indent_def)

text \<open>
  C1 (amended). Both functions walk the same pruned directories. In each directory the tree
  lists every file with an accepted extension, and the file list keeps, of those, the files
  whose \<^verbatim>\<open>stat\<close> succeeds with a size within the ceiling. So every file of the file list is
  listed in the tree, no file below an excluded directory is in either, and the two agree
  whenever every file of the walk passes the size test.
\<close>

theorem file_list_within_tree:
  "set (collect_files root inc ex mx) \<subseteq> set (listed_files (tree_items root inc ex)) \<and>
   (\<forall>p \<in> set (listed_files (tree_items root inc ex)). set (fst p) \<inter> ex = {}) \<and>
   collect_files root inc ex mx
     = concat (map (\<lambda>(rel, d). map (Pair rel)
                 (filter (within_ceiling mx d) (filter (ext_ok inc) (sort (filenames d)))))
         (walk ex [] root)) \<and>
   listed_files (tree_items root inc ex)
     = concat (map (\<lambda>(rel, d). map (Pair rel) (filter (ext_ok inc) (sort (filenames d))))
         (walk ex [] root)) \<and>
   ((\<forall>e \<in> set (walk ex [] root). \<forall>f \<in> set (filenames (snd e)). within_ceiling mx (snd e) f)
      \<longrightarrow> collect_files root inc ex mx = listed_files (tree_items root inc ex))"
proof -
  have sub: "set (collect_files root inc ex mx) \<subseteq> set (listed_files (tree_items root inc ex))"
    by (auto simp: collect_files_filter listed_files_tree_items)
  have excl: "\<forall>p \<in> set (listed_files (tree_items root inc ex)). set (fst p) \<inter> ex = {}"
  proof
    fix p assume "p \<in> set (listed_files (tree_items root inc ex))"
    then obtain d where "(fst p, d) \<in> set (walk ex [] root)"
      by (auto simp: listed_files_tree_items)
    from walk_rel(1) [OF this] show "set (fst p) \<inter> ex = {}" by simp
  qed
  have same: "collect_files root inc ex mx = listed_files (tree_items root inc ex)"
    if all: "\<forall>e \<in> set (walk ex [] root). \<forall>f \<in> set (filenames (snd e)). within_ceiling mx (snd e) f"
  proof -
    have "map (\<lambda>(rel, d). map (Pair rel)
                 (filter (within_ceiling mx d) (filter (ext_ok inc) (sort (filenames d)))))
            (walk ex [] root)
        = map (\<lambda>(rel, d). map (Pair rel) (filter (ext_ok inc) (sort (filenames d))))
            (walk ex [] root)"
    proof (rule map_cong [OF refl])
      fix e assume e: "e \<in> set (walk ex [] root)"
      obtain rel d where ed: "e = (rel, d)" by (cases e)
      from all e ed have "\<forall>f \<in> set (filenames d). within_ceiling mx d f" by auto
      then have "filter (within_ceiling mx d) (filter (ext_ok inc) (sort (filenames d)))
                   = filter (ext_ok inc) (sort (filenames d))"
        by (auto intro!: filter_cong [OF refl])
      with ed show "(case e of (rel, d) \<Rightarrow> map (Pair rel)
                 (filter (within_ceiling mx d) (filter (ext_ok inc) (sort (filenames d)))))
          = (case e of (rel, d) \<Rightarrow> map (Pair rel) (filter (ext_ok inc) (sort (filenames d))))"
        by simp
    qed
    then show ?thesis
      unfolding collect_files_filter listed_files_tree_items by (rule arg_cong [of _ _ concat])
  qed
  from sub excl same show ?thesis
    using collect_files_filter listed_files_tree_items by blast
qed


theorem file_list_within_tree_witness:
  "listed_files (tree_items root2 {''.py''} {''.git''})
     = [([], ''a.py''), ([], ''big.py''), ([''s''], ''b.py'')] \<and>
   collect_files root2 {''.py''} {''.git''} 512 = [([], ''a.py''), ([''s''], ''b.py'')] \<and>
   set (collect_files root2 {''.py''} {''.git''} 512)
     \<subseteq> set (listed_files (tree_items root2 {''.py''} {''.git''})) \<and>
   collect_files (Dir ''repo'' [(''x.py'', Some 100)] []) {''.py''} {''.git''} 512
     = listed_files (tree_items (Dir ''repo'' [(''x.py'', Some 100)] []) {''.py''} {''.git''})"
proof -
  have s: "sort [''big.py'', ''a.py'', ''n.txt''] = [''a.py'', ''big.py'', ''n.txt'']"
    by code_simp
  have l: "listed_files (tree_items root2 {''.py''} {''.git''})
     = [([], ''a.py''), ([], ''big.py''), ([''s''], ''b.py'')]"
    by (simp add: root2_def tree_items_def tree_block_def filenames_def suffix_of_def lower_def
        lower_char_def s)
  have c: "collect_files root2 {''.py''} {''.git''} 512 = [([], ''a.py''), ([''s''], ''b.py'')]"
    by (simp add: root2_def collect_files_def filenames_def suffix_of_def lower_def
        lower_char_def stat_size_def s)
  have w: "\<forall>e \<in> set (walk {''.git''} [] (Dir ''repo'' [(''x.py'', Some 100)] [])).
             \<forall>f \<in> set (filenames (snd e)). within_ceiling 512 (snd e) f"
    by (simp add: filenames_def within_ceiling_def stat_size_def)
  have a: "set (collect_files root2 {''.py''} {''.git''} 512)
     \<subseteq> set (listed_files (tree_items root2 {''.py''} {''.git''}))"
    using file_list_within_tree [of root2 "{''.py''}" "{''.git''}" 512] by (rule conjunct1)
  have b: "collect_files (Dir ''repo'' [(''x.py'', Some 100)] []) {''.py''} {''.git''} 512
     = listed_files (tree_items (Dir ''repo'' [(''x.py'', Some 100)] []) {''.py''} {''.git''})"
    using file_list_within_tree [of "Dir ''repo'' [(''x.py'', Some 100)] []" "{''.py''}" "{''.git''}" 512] w
    by (elim conjE impE) assumption
  from l c a b show ?thesis by (intro conjI)
qed

section \<open>Directory headings in the selector's order\<close>

text \<open>
  What the per-file loop does about directories, file by file: the headings it emits before
  each file (index and value of \<^verbatim>\<open>current_dir_parts\<close>), and the value of
  \<^verbatim>\<open>current_dir_parts\<close> it starts each file with.
\<close>

fun dir_emissions :: "string list \<Rightarrow> path list \<Rightarrow> (nat \<times> string list) list list" where
  "dir_emissions cur [] = []"
| "dir_emissions cur (p # files) =
     snd (dir_loop (fst p) cur (enumerate 0 (fst p)))
     # dir_emissions (fst (dir_loop (fst p) cur (enumerate 0 (fst p)))) files"

fun open_before :: "string list \<Rightarrow> path list \<Rightarrow> string list list" where
  "open_before cur [] = []"
| "open_before cur (p # files) =
     cur # open_before (fst (dir_loop (fst p) cur (enumerate 0 (fst p)))) files"

text \<open>
  The directories above a file, outermost first; and the headings owed when every directory
  gets its heading the first time a file below it comes up: before each file, the
  directories above it that are above none of the files before it.
\<close>

definition dirs_above :: "string list \<Rightarrow> string list list" where
  "dirs_above dir_parts = map (\<lambda>j. take (Suc j) dir_parts) [0 ..< length dir_parts]"

fun first_time :: "string list list \<Rightarrow> string list list \<Rightarrow> string list list list" where
  "first_time seen [] = []"
| "first_time seen (dp # dps) =
     filter (\<lambda>q. \<forall>e \<in> set seen. \<not> prefix q e) (dirs_above dp) # first_time (seen @ [dp]) dps"

text \<open>
  The order the selector produces is described by what it guarantees at every file: among the
  directories above the file, the open segments cover exactly those already seen above an
  earlier file, and the file's directory is not a proper ancestor of the open one.
\<close>

definition opened_iff_seen :: "string list list \<Rightarrow> string list \<Rightarrow> string list \<Rightarrow> bool" where
  "opened_iff_seen seen cur dp \<longleftrightarrow>
     (\<forall>q. q \<noteq> [] \<and> prefix q dp \<longrightarrow> (prefix q cur \<longleftrightarrow> (\<exists>e \<in> set seen. prefix q e)))"

fun walk_ordered :: "string list list \<Rightarrow> string list \<Rightarrow> string list list \<Rightarrow> bool" where
  "walk_ordered seen cur [] = True"
| "walk_ordered seen cur (dp # dps) =
     (opened_iff_seen seen cur dp \<and> \<not> strict_prefix dp cur \<and> walk_ordered (seen @ [dp]) dp dps)"

lemma file_loop_sections:
  "file_loop env root hl ln cur files
     = concat (map (\<lambda>(p, es). map dir_heading es @ file_body env root p hl ln)
         (zip files (dir_emissions cur files)))"
  by (induction files arbitrary: cur) (simp_all add: Let_def)

lemma lcp_length_le: "length (longest_common_prefix xs ys) \<le> length ys"
  by (induction xs ys rule: longest_common_prefix.induct) auto

lemma prefix_take_lcp:
  "j < length dp \<Longrightarrow> prefix (take (Suc j) dp) cur \<longleftrightarrow> Suc j \<le> length (longest_common_prefix cur dp)"
proof (induction dp arbitrary: cur j)
  case Nil
  then show ?case by simp
next
  case (Cons y ys)
  show ?case
  proof (cases cur)
    case Nil
    then show ?thesis by simp
  next
    case c: (Cons x xs)
    show ?thesis
    proof (cases j)
      case 0
      with c show ?thesis by auto
    next
      case (Suc k)
      with Cons.prems have "k < length ys" by simp
      from Cons.IH [OF this, of xs] c Suc show ?thesis by auto
    qed
  qed
qed

lemma filter_ge_upt: "m \<le> n \<Longrightarrow> filter (\<lambda>j. m \<le> j) [0 ..< n] = [m ..< n]"
proof (induction n)
  case 0
  then show ?case by simp
next
  case (Suc n)
  show ?case
  proof (cases "m \<le> n")
    case True
    with Suc show ?thesis by simp
  next
    case False
    with Suc.prems have "m = Suc n" by simp
    then have "filter (\<lambda>j. m \<le> j) [0 ..< n] = []" by (auto simp: filter_empty_conv)
    with \<open>m = Suc n\<close> show ?thesis by simp
  qed
qed

lemma emitted_is_unopened:
  "map (\<lambda>j. take (Suc j) dp) [length (longest_common_prefix cur dp) ..< length dp]
     = filter (\<lambda>q. \<not> prefix q cur) (dirs_above dp)"
proof -
  have "filter (\<lambda>q. \<not> prefix q cur) (dirs_above dp)
      = map (\<lambda>j. take (Suc j) dp) (filter (\<lambda>j. \<not> prefix (take (Suc j) dp) cur) [0 ..< length dp])"
    by (simp add: dirs_above_def filter_map comp_def)
  also have "filter (\<lambda>j. \<not> prefix (take (Suc j) dp) cur) [0 ..< length dp]
      = filter (\<lambda>j. length (longest_common_prefix cur dp) \<le> j) [0 ..< length dp]"
    by (rule filter_cong [OF refl]) (auto simp: prefix_take_lcp)
  also have "\<dots> = [length (longest_common_prefix cur dp) ..< length dp]"
    by (rule filter_ge_upt [OF lcp_length_le])
  finally show ?thesis by simp
qed


lemma lcp_full: "length (longest_common_prefix cur dp) = length dp \<longleftrightarrow> prefix dp cur"
  by (induction cur dp rule: longest_common_prefix.induct) auto

lemma dir_loop_emitted:
  "map snd (snd (dir_loop dp cur (enumerate 0 dp))) = filter (\<lambda>q. \<not> prefix q cur) (dirs_above dp)"
  by (simp add: dir_loop_enumerate emitted_is_unopened [symmetric] comp_def)

lemma dir_loop_open:
  "fst (dir_loop dp cur (enumerate 0 dp)) = (if prefix dp cur then cur else dp)"
  by (simp add: dir_loop_enumerate lcp_full)

lemma dirs_above_mem: "q \<in> set (dirs_above dp) \<longleftrightarrow> q \<noteq> [] \<and> prefix q dp"
proof
  assume "q \<in> set (dirs_above dp)"
  then obtain j where "j < length dp" "q = take (Suc j) dp"
    by (auto simp: dirs_above_def)
  then show "q \<noteq> [] \<and> prefix q dp"
    by (cases dp) (auto simp: take_is_prefix)
next
  assume a: "q \<noteq> [] \<and> prefix q dp"
  then obtain s where dp: "dp = q @ s" by (auto simp: prefix_def)
  from a obtain k where k: "length q = Suc k" by (cases q) auto
  with dp have "k < length dp" "q = take (Suc k) dp" by auto
  then show "q \<in> set (dirs_above dp)"
    unfolding dirs_above_def by (auto intro!: image_eqI [where x = k])
qed

lemma walk_ordered_emissions:
  "walk_ordered seen cur (map fst files) \<Longrightarrow>
     map (map snd) (dir_emissions cur files) = first_time seen (map fst files) \<and>
     open_before cur files = take (length files) (cur # map fst files)"
proof (induction files arbitrary: seen cur)
  case Nil
  show ?case by simp
next
  case (Cons p files)
  from Cons.prems have i: "opened_iff_seen seen cur (fst p)" and ns: "\<not> strict_prefix (fst p) cur"
    and g: "walk_ordered (seen @ [fst p]) (fst p) (map fst files)"
    by simp_all
  have nxt: "fst (dir_loop (fst p) cur (enumerate 0 (fst p))) = fst p"
    using ns by (auto simp: dir_loop_open strict_prefix_def)
  have em: "map snd (snd (dir_loop (fst p) cur (enumerate 0 (fst p))))
      = filter (\<lambda>q. \<forall>e \<in> set seen. \<not> prefix q e) (dirs_above (fst p))"
    unfolding dir_loop_emitted
  proof (rule filter_cong [OF refl])
    fix q assume "q \<in> set (dirs_above (fst p))"
    then have "q \<noteq> [] \<and> prefix q (fst p)" by (simp add: dirs_above_mem)
    with i show "(\<not> prefix q cur) = (\<forall>e \<in> set seen. \<not> prefix q e)"
      unfolding opened_iff_seen_def by blast
  qed
  from Cons.IH [OF g] nxt em show ?case by simp
qed

lemma first_time_set:
  "set (concat (first_time seen dps))
     = {q. q \<noteq> [] \<and> (\<exists>dp \<in> set dps. prefix q dp) \<and> (\<forall>e \<in> set seen. \<not> prefix q e)}"
proof (induction dps arbitrary: seen)
  case Nil
  show ?case by simp
next
  case (Cons dp dps)
  have "set (concat (first_time seen (dp # dps)))
      = set (filter (\<lambda>q. \<forall>e \<in> set seen. \<not> prefix q e) (dirs_above dp))
        \<union> set (concat (first_time (seen @ [dp]) dps))"
    by simp
  also have "\<dots> = {q. q \<in> set (dirs_above dp) \<and> (\<forall>e \<in> set seen. \<not> prefix q e)}
        \<union> {q. q \<noteq> [] \<and> (\<exists>d \<in> set dps. prefix q d)
                 \<and> (\<forall>e \<in> set (seen @ [dp]). \<not> prefix q e)}"
    unfolding Cons [of "seen @ [dp]"] by auto
  also have "\<dots> = {q. q \<noteq> [] \<and> (\<exists>d \<in> set (dp # dps). prefix q d)
                 \<and> (\<forall>e \<in> set seen. \<not> prefix q e)}"
    by (auto simp: dirs_above_mem)
  finally show ?case .
qed

lemma distinct_dirs_above: "distinct (dirs_above dp)"
proof -
  have "inj_on (\<lambda>j. take (Suc j) dp) {0 ..< length dp}"
  proof (rule inj_onI)
    fix i j assume "i \<in> {0 ..< length dp}" "j \<in> {0 ..< length dp}"
      and eq: "take (Suc i) dp = take (Suc j) dp"
    then have b: "Suc i \<le> length dp" "Suc j \<le> length dp" by auto
    from eq have "length (take (Suc i) dp) = length (take (Suc j) dp)" by simp
    with b show "i = j" by (auto simp: min_def split: if_splits)
  qed
  then show ?thesis by (simp add: dirs_above_def distinct_map)
qed

lemma first_time_distinct: "distinct (concat (first_time seen dps))"
proof (induction dps arbitrary: seen)
  case Nil
  show ?case by simp
next
  case (Cons dp dps)
  have "set (filter (\<lambda>q. \<forall>e \<in> set seen. \<not> prefix q e) (dirs_above dp))
          \<inter> set (concat (first_time (seen @ [dp]) dps)) = {}"
    unfolding first_time_set by (auto simp: dirs_above_mem)
  with Cons [of "seen @ [dp]"] show ?case
    by (simp add: distinct_dirs_above)
qed


text \<open>
  A directory tree of a file system: the sub-directories of a directory have distinct names.
  \<open>dps_of cnt\<close> is the sequence of directory paths of the files of a walk, when \<open>cnt d\<close> files
  of directory \<open>d\<close> are selected.
\<close>

fun wf_dir :: "dir \<Rightarrow> bool" where
  "wf_dir (Dir n fs ds) = (distinct (map dname ds) \<and> (\<forall>d \<in> set ds. wf_dir d))"

definition dps_of :: "(dir \<Rightarrow> nat) \<Rightarrow> (string list \<times> dir) list \<Rightarrow> string list list" where
  "dps_of cnt es = concat (map (\<lambda>(rel, d). replicate (cnt d) rel) es)"

lemma dps_of_simps:
  "dps_of cnt [] = []"
  "dps_of cnt ((rel, d) # es) = replicate (cnt d) rel @ dps_of cnt es"
  "dps_of cnt (es @ fs) = dps_of cnt es @ dps_of cnt fs"
  by (simp_all add: dps_of_def)

lemma collect_files_dps:
  "map fst (collect_files root inc ex mx)
     = dps_of (\<lambda>d. length (filter (within_ceiling mx d) (filter (ext_ok inc) (sort (filenames d)))))
         (walk ex [] root)"
proof -
  have "map fst (concat (map (\<lambda>(rel, d). map (Pair rel) (f d)) es))
      = concat (map (\<lambda>(rel, d). replicate (length (f d)) rel) es)" for f :: "dir \<Rightarrow> string list" and es
    by (induction es) (auto simp: map_replicate_const comp_def)
  then show ?thesis
    unfolding collect_files_filter dps_of_def by simp
qed

lemma walk_ordered_append:
  "walk_ordered seen cur (xs @ ys)
     \<longleftrightarrow> walk_ordered seen cur xs \<and> walk_ordered (seen @ xs) (if xs = [] then cur else last xs) ys"
  by (induction xs arbitrary: seen cur) auto

lemma opened_iff_seen_last: "prefix rel cur \<Longrightarrow> cur \<in> set seen \<Longrightarrow> opened_iff_seen seen cur rel"
  unfolding opened_iff_seen_def by (meson prefix_order.order_trans)

lemma walk_ordered_same: "rel \<in> set seen \<Longrightarrow> walk_ordered seen rel (replicate k rel)"
  by (induction k arbitrary: seen) (auto simp: opened_iff_seen_last)

lemma walk_ordered_replicate:
  "opened_iff_seen seen cur rel \<Longrightarrow> \<not> strict_prefix rel cur \<Longrightarrow> walk_ordered seen cur (replicate k rel)"
  by (cases k) (auto simp: walk_ordered_same)

lemma prefix_snoc_both: "prefix (rel @ [a]) e \<Longrightarrow> prefix (rel @ [b]) e \<Longrightarrow> a = b"
  by (auto simp: prefix_def append_eq_append_conv2 append_eq_Cons_conv)

lemma opened_iff_seen_child:
  assumes "opened_iff_seen seen cur rel" and "\<forall>e \<in> set (cur # seen). \<not> prefix (rel @ [n]) e"
  shows "opened_iff_seen seen cur (rel @ [n])"
  using assms unfolding opened_iff_seen_def by (auto simp: prefix_snoc)

lemma walk_dps_prefix:
  "e \<in> set (dps_of cnt (walk ex rel d)) \<Longrightarrow> prefix rel e"
  "e \<in> set (dps_of cnt (walk_subdirs ex rel cs)) \<Longrightarrow> \<exists>c \<in> set cs. prefix (rel @ [dname c]) e"
proof (induction ex rel d and ex rel cs arbitrary: e and e rule: walk_walk_subdirs.induct)
  case (1 ex rel n fs ds)
  from "1.prems" consider "e = rel"
    | "e \<in> set (dps_of cnt (walk_subdirs ex rel (filter (\<lambda>d. dname d \<notin> ex) ds)))"
    by (auto simp: dps_of_simps)
  then show ?case
  proof cases
    case 1
    then show ?thesis by simp
  next
    case 2
    from "1.IH" [OF 2] obtain c where "prefix (rel @ [dname c]) e" by blast
    then show ?thesis by (auto simp: prefix_def)
  qed
next
  case (2 ex rel)
  then show ?case by (simp add: dps_of_simps)
next
  case (3 ex rel d ds)
  from "3.prems" consider "e \<in> set (dps_of cnt (walk ex (rel @ [dname d]) d))"
    | "e \<in> set (dps_of cnt (walk_subdirs ex rel ds))"
    by (auto simp: dps_of_simps)
  then show ?case
  proof cases
    case 1
    from "3.IH"(1) [OF 1] show ?thesis by simp
  next
    case 2
    from "3.IH"(2) [OF 2] show ?thesis by auto
  qed
qed


lemma walk_is_ordered:
  "wf_dir d \<Longrightarrow> opened_iff_seen seen cur rel \<Longrightarrow> \<not> strict_prefix rel cur
     \<Longrightarrow> \<forall>e \<in> set seen. \<not> strict_prefix rel e
     \<Longrightarrow> walk_ordered seen cur (dps_of cnt (walk ex rel d))"
  "\<forall>c \<in> set cs. wf_dir c \<Longrightarrow> distinct (map dname cs) \<Longrightarrow> opened_iff_seen seen cur rel
     \<Longrightarrow> \<forall>c \<in> set cs. \<forall>e \<in> set (cur # seen). \<not> prefix (rel @ [dname c]) e
     \<Longrightarrow> walk_ordered seen cur (dps_of cnt (walk_subdirs ex rel cs))"
proof (induction ex rel d and ex rel cs arbitrary: seen cur and seen cur
    rule: walk_walk_subdirs.induct)
  case (1 ex rel n fs ds)
  define k where "k = cnt (Dir n fs ds)"
  define cs where "cs = filter (\<lambda>d. dname d \<notin> ex) ds"
  define seen' where "seen' = seen @ replicate k rel"
  define cur' where "cur' = (if k = 0 then cur else rel)"
  have own: "walk_ordered seen cur (replicate k rel)"
    using "1.prems"(2,3) by (rule walk_ordered_replicate)
  have wf: "\<forall>c \<in> set cs. wf_dir c" and dist: "distinct (map dname cs)"
    using "1.prems"(1) by (auto simp: cs_def distinct_map_filter)
  have inv': "opened_iff_seen seen' cur' rel"
  proof (cases "k = 0")
    case True
    with "1.prems"(2) show ?thesis by (simp add: seen'_def cur'_def)
  next
    case False
    then have "rel \<in> set seen'" by (simp add: seen'_def)
    with False show ?thesis by (simp add: cur'_def opened_iff_seen_last)
  qed
  have untouched: "\<forall>c \<in> set cs. \<forall>e \<in> set (cur' # seen'). \<not> prefix (rel @ [dname c]) e"
  proof (intro ballI)
    fix c e assume "c \<in> set cs" and e: "e \<in> set (cur' # seen')"
    from e consider "e = cur" | "e = rel" | "e \<in> set seen"
      by (auto simp: cur'_def seen'_def split: if_splits)
    then show "\<not> prefix (rel @ [dname c]) e"
    proof cases
      case 1
      with "1.prems"(3) show ?thesis by (auto simp: prefix_def strict_prefix_def)
    next
      case 2
      then show ?thesis by (auto simp: prefix_def)
    next
      case 3
      with "1.prems"(4) show ?thesis by (auto simp: prefix_def strict_prefix_def)
    qed
  qed
  have sub: "walk_ordered seen' cur' (dps_of cnt (walk_subdirs ex rel cs))"
    unfolding cs_def
    by (rule "1.IH") (use wf dist inv' untouched in \<open>simp_all add: cs_def\<close>)
  have "cur' = (if replicate k rel = [] then cur else last (replicate k rel))"
    by (simp add: cur'_def)
  with own sub show ?case
    by (simp add: dps_of_simps walk_ordered_append k_def [symmetric] cs_def [symmetric] seen'_def)
next
  case (2 ex rel)
  show ?case by (simp add: dps_of_simps)
next
  case (3 ex rel d ds)
  define W where "W = dps_of cnt (walk ex (rel @ [dname d]) d)"
  define seen' where "seen' = seen @ W"
  define cur' where "cur' = (if W = [] then cur else last W)"
  from "3.prems"(4) have fresh: "\<forall>e \<in> set (cur # seen). \<not> prefix (rel @ [dname d]) e"
    by simp
  have first: "walk_ordered seen cur W"
    unfolding W_def
  proof (rule "3.IH"(1))
    show "wf_dir d" using "3.prems"(1) by simp
    show "opened_iff_seen seen cur (rel @ [dname d])"
      using "3.prems"(3) fresh by (rule opened_iff_seen_child)
    show "\<not> strict_prefix (rel @ [dname d]) cur"
      using fresh by (auto simp: strict_prefix_def)
    show "\<forall>e \<in> set seen. \<not> strict_prefix (rel @ [dname d]) e"
      using fresh by (auto simp: strict_prefix_def)
  qed
  have inW: "\<forall>e \<in> set W. prefix (rel @ [dname d]) e"
    unfolding W_def using walk_dps_prefix(1) by blast
  have inv': "opened_iff_seen seen' cur' rel"
  proof (cases "W = []")
    case True
    with "3.prems"(3) show ?thesis by (simp add: seen'_def cur'_def)
  next
    case False
    then have l: "last W \<in> set W" by simp
    with inW have "prefix (rel @ [dname d]) (last W)" by blast
    then have "prefix rel (last W)" by (auto simp: prefix_def)
    moreover from l have "last W \<in> set seen'" by (simp add: seen'_def)
    ultimately show ?thesis using False by (simp add: cur'_def opened_iff_seen_last)
  qed
  have untouched: "\<forall>c \<in> set ds. \<forall>e \<in> set (cur' # seen'). \<not> prefix (rel @ [dname c]) e"
  proof (intro ballI)
    fix c e assume c: "c \<in> set ds" and e: "e \<in> set (cur' # seen')"
    from e consider "e \<in> set (cur # seen)" | "e \<in> set W"
      by (auto simp: cur'_def seen'_def split: if_splits)
    then show "\<not> prefix (rel @ [dname c]) e"
    proof cases
      case 1
      with "3.prems"(4) c show ?thesis by auto
    next
      case 2
      with inW have p: "prefix (rel @ [dname d]) e" by blast
      have m1: "dname c \<in> set (map dname ds)" using c by simp
      have m2: "dname d \<notin> set (map dname ds)" using "3.prems"(2) by simp
      have "dname c \<noteq> dname d"
      proof
        assume "dname c = dname d"
        with m1 have "dname d \<in> set (map dname ds)" by simp
        with m2 show False by (rule notE)
      qed
      show ?thesis
      proof
        assume "prefix (rel @ [dname c]) e"
        from prefix_snoc_both [OF this p] \<open>dname c \<noteq> dname d\<close> show False by (rule notE [rotated])
      qed
    qed
  qed
  have rest: "walk_ordered seen' cur' (dps_of cnt (walk_subdirs ex rel ds))"
  proof (rule "3.IH"(2))
    show "\<forall>c \<in> set ds. wf_dir c" using "3.prems"(1) by simp
    show "distinct (map dname ds)" using "3.prems"(2) by simp
    show "opened_iff_seen seen' cur' rel" by (rule inv')
    show "\<forall>c \<in> set ds. \<forall>e \<in> set (cur' # seen'). \<not> prefix (rel @ [dname c]) e"
      by (rule untouched)
  qed
  from first rest show ?case
    by (simp add: dps_of_simps walk_ordered_append W_def [symmetric] seen'_def cur'_def)
qed

lemma collect_files_walk_ordered:
  assumes "wf_dir root"
  shows "walk_ordered [] [] (map fst (collect_files root inc ex mx))"
  unfolding collect_files_dps
  by (rule walk_is_ordered(1) [OF assms]) (simp_all add: opened_iff_seen_def)


lemma dir_emissions_steps:
  "dir_emissions cur files
     = map (\<lambda>(prev, p). map (\<lambda>j. (j, take (Suc j) (fst p)))
                            [length (longest_common_prefix prev (fst p)) ..< length (fst p)])
         (zip (open_before cur files) files)"
  by (induction files arbitrary: cur) (simp_all add: dir_loop_enumerate)

definition root3 :: dir where
  "root3 = Dir ''r'' [(''m.py'', Some 1)]
             [Dir ''a'' [] [Dir ''b'' [(''x.py'', Some 1)] [], Dir ''c'' [(''y.py'', Some 1)] []],
              Dir ''d'' [(''z.py'', Some 1)] []]"

lemma dir_loop_emitted_length:
  "e \<in> set (snd (dir_loop dp cur (enumerate 0 dp))) \<Longrightarrow> length (snd e) = Suc (fst e)"
  by (auto simp: dir_loop_enumerate)

lemma dir_heading_by_parts:
  "length (snd e) = Suc (fst e) \<Longrightarrow>
     dir_heading e
       = Paragraph (join ''/'' (snd e)) (if length (snd e) = 1 then ''Heading1'' else ''Heading2'')"
  by (cases e) (simp add: dir_heading_def)

lemma dir_headings_by_parts:
  "map dir_heading (snd (dir_loop dp cur (enumerate 0 dp)))
     = map (\<lambda>q. Paragraph (join ''/'' q) (if length q = 1 then ''Heading1'' else ''Heading2''))
         (map snd (snd (dir_loop dp cur (enumerate 0 dp))))"
  unfolding map_map
  by (rule map_cong [OF refl]) (simp add: dir_heading_by_parts dir_loop_emitted_length)

lemma file_loop_paragraphs:
  "file_loop env root hl ln cur files
     = concat (map (\<lambda>(p, qs).
           map (\<lambda>q. Paragraph (join ''/'' q) (if length q = 1 then ''Heading1'' else ''Heading2'')) qs
           @ file_body env root p hl ln)
         (zip files (map (map snd) (dir_emissions cur files))))"
proof (induction files arbitrary: cur)
  case Nil
  show ?case by simp
next
  case (Cons p files)
  show ?case
    by (simp add: Let_def dir_headings_by_parts Cons del: map_map)
qed

text \<open>
  C3. Let the files be those the selector returns for a directory tree, in its order. Then
  the story of the per-file loop is, file by file, the directory headings emitted for the
  file followed by the file's section, and:
  \<^item> every directory heading is a paragraph whose text is the directory's segments joined
    with \<^verbatim>\<open>/\<close>, in the first heading style for a top-level directory and the second for
    a deeper one;
  \<^item> the headings emitted before a file are exactly the directories above it that are above
    no earlier file, so every directory with a selected file beneath it gets its heading the
    first time a file under it is encountered;
  \<^item> no directory gets two headings, and the directories with a heading are exactly those
    with a selected file beneath them;
  \<^item> the open segments at the start of each file are the directory segments of the previous
    file (none for the first file): after every file they have been reset to that file's;
  \<^item> the headings emitted for a file are those of its directory segments from the first
    index where they part from the open segments, one per segment.
\<close>

theorem directory_headings_in_walk_order:
  assumes "wf_dir root" and "files = collect_files root inc ex mx"
  shows "file_loop env rr hl ln [] files
           = concat (map (\<lambda>(p, qs).
                 map (\<lambda>q. Paragraph (join ''/'' q)
                            (if length q = 1 then ''Heading1'' else ''Heading2'')) qs
                 @ file_body env rr p hl ln)
               (zip files (first_time [] (map fst files)))) \<and>
         file_loop env rr hl ln [] files
           = concat (map (\<lambda>(p, es). map dir_heading es @ file_body env rr p hl ln)
               (zip files (dir_emissions [] files))) \<and>
         map (map snd) (dir_emissions [] files) = first_time [] (map fst files) \<and>
         distinct (concat (map (map snd) (dir_emissions [] files))) \<and>
         set (concat (map (map snd) (dir_emissions [] files)))
           = {q. q \<noteq> [] \<and> (\<exists>p \<in> set files. prefix q (fst p))} \<and>
         open_before [] files = take (length files) ([] # map fst files) \<and>
         dir_emissions [] files
           = map (\<lambda>(prev, p). map (\<lambda>j. (j, take (Suc j) (fst p)))
                                  [length (longest_common_prefix prev (fst p)) ..< length (fst p)])
               (zip (open_before [] files) files)"
proof -
  have g: "walk_ordered [] [] (map fst files)"
    unfolding assms(2) using assms(1) by (rule collect_files_walk_ordered)
  from walk_ordered_emissions [OF g]
  have em: "map (map snd) (dir_emissions [] files) = first_time [] (map fst files)"
    and op: "open_before [] files = take (length files) ([] # map fst files)"
    by simp_all
  have d: "distinct (concat (map (map snd) (dir_emissions [] files)))"
    unfolding em by (rule first_time_distinct)
  have s: "set (concat (map (map snd) (dir_emissions [] files)))
           = {q. q \<noteq> [] \<and> (\<exists>p \<in> set files. prefix q (fst p))}"
    unfolding em first_time_set by auto
  have st: "file_loop env rr hl ln [] files
           = concat (map (\<lambda>(p, qs).
                 map (\<lambda>q. Paragraph (join ''/'' q)
                            (if length q = 1 then ''Heading1'' else ''Heading2'')) qs
                 @ file_body env rr p hl ln)
               (zip files (first_time [] (map fst files))))"
    using file_loop_paragraphs [of env rr hl ln "[]" files] unfolding em .
  from st em op d s file_loop_sections [of env rr hl ln "[]" files] dir_emissions_steps [of "[]" files]
  show ?thesis by (intro conjI)
qed

theorem directory_headings_in_walk_order_witness:
  "wf_dir root3 \<and>
   collect_files root3 {''.py''} {} 512
     = [([], ''m.py''), ([''a'', ''b''], ''x.py''), ([''a'', ''c''], ''y.py''), ([''d''], ''z.py'')] \<and>
   file_loop env0 ''/r'' False False [] (collect_files root3 {''.py''} {} 512)
     = file_body env0 ''/r'' ([], ''m.py'') False False
       @ [Paragraph ''a'' ''Heading1'', Paragraph ''a/b'' ''Heading2'']
       @ file_body env0 ''/r'' ([''a'', ''b''], ''x.py'') False False
       @ [Paragraph ''a/c'' ''Heading2'']
       @ file_body env0 ''/r'' ([''a'', ''c''], ''y.py'') False False
       @ [Paragraph ''d'' ''Heading1'']
       @ file_body env0 ''/r'' ([''d''], ''z.py'') False False \<and>
   map (map snd) (dir_emissions [] (collect_files root3 {''.py''} {} 512))
     = [[], [[''a''], [''a'', ''b'']], [[''a'', ''c'']], [[''d'']]] \<and>
   open_before [] (collect_files root3 {''.py''} {} 512)
     = [[], [], [''a'', ''b''], [''a'', ''c'']]"
proof -
  have w: "wf_dir root3" by (simp add: root3_def)
  have c: "collect_files root3 {''.py''} {} 512
     = [([], ''m.py''), ([''a'', ''b''], ''x.py''), ([''a'', ''c''], ''y.py''), ([''d''], ''z.py'')]"
    by (simp add: root3_def collect_files_def filenames_def suffix_of_def lower_def
        lower_char_def stat_size_def)
  have f: "first_time [] [[], [''a'', ''b''], [''a'', ''c''], [''d'']]
     = [[], [[''a''], [''a'', ''b'']], [[''a'', ''c'']], [[''d'']]]"
    by (simp add: dirs_above_def upt_conv_Cons del: upt_Suc)
  note t = directory_headings_in_walk_order [where root = root3 and inc = "{''.py''}" and ex = "{}"
      and mx = 512 and env = env0 and rr = "''/r''" and hl = False and ln = False, OF w refl]
  have m: "map fst (collect_files root3 {''.py''} {} 512) = [[], [''a'', ''b''], [''a'', ''c''], [''d'']]"
    by (simp add: c)
  have l: "length (collect_files root3 {''.py''} {} 512) = 4"
    by (simp add: c)
  have tk: "take 4 ([] # [[], [''a'', ''b''], [''a'', ''c''], [''d'']])
      = [[], [], [''a'', ''b''], [''a'', ''c'']]"
    by simp
  have z: "concat (map (\<lambda>(p, qs).
                 map (\<lambda>q. Paragraph (join ''/'' q)
                            (if length q = 1 then ''Heading1'' else ''Heading2'')) qs
                 @ file_body env0 ''/r'' p False False)
               (zip [([], ''m.py''), ([''a'', ''b''], ''x.py''), ([''a'', ''c''], ''y.py''), ([''d''], ''z.py'')]
                 [[], [[''a''], [''a'', ''b'']], [[''a'', ''c'']], [[''d'']]]))
     = file_body env0 ''/r'' ([], ''m.py'') False False
       @ [Paragraph ''a'' ''Heading1'', Paragraph ''a/b'' ''Heading2'']
       @ file_body env0 ''/r'' ([''a'', ''b''], ''x.py'') False False
       @ [Paragraph ''a/c'' ''Heading2'']
       @ file_body env0 ''/r'' ([''a'', ''c''], ''y.py'') False False
       @ [Paragraph ''d'' ''Heading1'']
       @ file_body env0 ''/r'' ([''d''], ''z.py'') False False"
    by simp
  have e0: "file_loop env0 ''/r'' False False [] (collect_files root3 {''.py''} {} 512)
     = concat (map (\<lambda>(p, qs).
                 map (\<lambda>q. Paragraph (join ''/'' q)
                            (if length q = 1 then ''Heading1'' else ''Heading2'')) qs
                 @ file_body env0 ''/r'' p False False)
               (zip [([], ''m.py''), ([''a'', ''b''], ''x.py''), ([''a'', ''c''], ''y.py''), ([''d''], ''z.py'')]
                 [[], [[''a''], [''a'', ''b'']], [[''a'', ''c'']], [[''d'']]]))"
    using t [THEN conjunct1] unfolding m f unfolding c .
  have e1: "map (map snd) (dir_emissions [] (collect_files root3 {''.py''} {} 512))
     = [[], [[''a''], [''a'', ''b'']], [[''a'', ''c'']], [[''d'']]]"
    using t [THEN conjunct2, THEN conjunct2, THEN conjunct1] unfolding m f .
  have e2: "open_before [] (collect_files root3 {''.py''} {} 512)
     = [[], [], [''a'', ''b''], [''a'', ''c'']]"
    using t [THEN conjunct2, THEN conjunct2, THEN conjunct2, THEN conjunct2, THEN conjunct2,
        THEN conjunct1]
    unfolding m l tk .
  from w c e0 [unfolded z] e1 e2 show ?thesis by (intro conjI)
qed

end
